theory Spec2Isabelle
  imports Main
begin

section \<open>Python values used by the shell\<close>

text \<open>
  A Python \<open>str\<close> is modelled as a \<open>string\<close>; a character stands for a code point
  below 256.  A \<open>dict\<close> from strings to strings is a map, and an exception that the
  source can raise is a value of \<open>py_error\<close> on the left of a sum.
\<close>

datatype py_error = IndexError | KeyError | ValueError | RecursionError

type_synonym py_dict = "string \<rightharpoonup> string"

text \<open>\<open>str.isspace\<close> on one character (the code points below 256 that Python counts
  as whitespace).\<close>

definition isspace :: "char \<Rightarrow> bool" where
  "isspace c \<longleftrightarrow>
     c = CHR 0x09 \<or> c = CHR 0x0A \<or> c = CHR 0x0B \<or> c = CHR 0x0C \<or> c = CHR 0x0D \<or>
     c = CHR 0x1C \<or> c = CHR 0x1D \<or> c = CHR 0x1E \<or> c = CHR 0x1F \<or> c = CHR 0x20 \<or>
     c = CHR 0x85 \<or> c = CHR 0xA0"

text \<open>\<open>s.strip()\<close>: leading and trailing whitespace removed.\<close>

definition strip :: "string \<Rightarrow> string" where
  "strip s = rev (dropWhile isspace (rev (dropWhile isspace s)))"

text \<open>
  \<open>s.split(None, 1)\<close>: leading whitespace is skipped; if nothing is left the result is
  \<open>[]\<close>.  Otherwise the first word runs up to the next whitespace character, the whitespace
  after it is skipped, and what remains (if anything) is the second element, up to the end
  of the string.
\<close>

definition split_ws1 :: "string \<Rightarrow> string list" where
  "split_ws1 s =
     (let t = dropWhile isspace s in
      if t = [] then []
      else
        let w = takeWhile (\<lambda>c. \<not> isspace c) t;
            r = dropWhile isspace (dropWhile (\<lambda>c. \<not> isspace c) t)
        in if r = [] then [w] else [w, r])"

text \<open>\<open>xs[i]\<close> for a non-negative index, and \<open>d[k]\<close>, with the exceptions Python raises.\<close>

definition getitem :: "'a list \<Rightarrow> nat \<Rightarrow> py_error + 'a" where
  "getitem xs i = (if i < length xs then Inr (xs ! i) else Inl IndexError)"

definition dict_getitem :: "py_dict \<Rightarrow> string \<Rightarrow> py_error + string" where
  "dict_getitem d k = (case d k of None \<Rightarrow> Inl KeyError | Some v \<Rightarrow> Inr v)"

text \<open>\<open>k in d\<close>.\<close>

definition contains :: "py_dict \<Rightarrow> string \<Rightarrow> bool" where
  "contains d k \<longleftrightarrow> d k \<noteq> None"

text \<open>Truth value of a string and of an optional string (\<open>None\<close> and \<open>""\<close> are false).\<close>

definition truthy :: "string option \<Rightarrow> bool" where
  "truthy v \<longleftrightarrow> (case v of None \<Rightarrow> False | Some s \<Rightarrow> s \<noteq> [])"

section \<open>alias\_registry.py: AliasRegistry\<close>

text \<open>The registry's only attribute is the dictionary \<open>_aliases\<close>.\<close>

definition AliasRegistry_init :: "py_dict" where
  "AliasRegistry_init = Map.empty"

definition AliasRegistry_define :: "py_dict \<Rightarrow> string \<Rightarrow> string \<Rightarrow> py_dict" where
  "AliasRegistry_define aliases name expansion = aliases(name \<mapsto> expansion)"

text \<open>
  \<open>_expand_recursive(command, seen, depth, max_depth)\<close>.  The function calls itself, and
  every such call needs a frame of the interpreter's stack: \<open>frames\<close> is the number of
  frames the interpreter can still push when the function is called (the recursion limit
  less the depth of the stack at that moment), and a call that finds none raises
  \<open>RecursionError\<close>.  The recursion of the source is kept; it is well founded because
  \<open>depth\<close> grows towards \<open>max_depth\<close>.
\<close>

function AliasRegistry_expand_recursive ::
  "py_dict \<Rightarrow> string \<Rightarrow> string set \<Rightarrow> int \<Rightarrow> int \<Rightarrow> nat \<Rightarrow> py_error + string" where
  "AliasRegistry_expand_recursive aliases command seen depth max_depth frames =
     (if frames = 0 then Inl RecursionError
      else if depth \<ge> max_depth then Inr command
      else
        let parts = split_ws1 command in
        if parts = [] then Inr command
        else
          case getitem parts 0 of
            Inl e \<Rightarrow> Inl e
          | Inr cmd \<Rightarrow>
              (case (if length parts > 1 then getitem parts 1 else Inr []) of
                 Inl e \<Rightarrow> Inl e
               | Inr rest \<Rightarrow>
                   if \<not> contains aliases cmd then Inr command
                   else if cmd \<in> seen then Inr command
                   else
                     (case dict_getitem aliases cmd of
                        Inl e \<Rightarrow> Inl e
                      | Inr expansion \<Rightarrow>
                          (case AliasRegistry_expand_recursive aliases expansion
                                  (insert cmd seen) (depth + 1) max_depth (frames - 1) of
                             Inl e \<Rightarrow> Inl e
                           | Inr expanded \<Rightarrow>
                               Inr (expanded @ (if rest \<noteq> [] then '' '' @ rest else []))))))"
  by pat_completeness auto
termination
  by (relation "measure (\<lambda>(aliases, command, seen, depth, max_depth, frames).
        nat (max_depth - depth))") auto

declare AliasRegistry_expand_recursive.simps [simp del]

text \<open>
  \<open>expand(command, recursive=True, max_depth=10)\<close>; \<open>frames\<close> is the number of frames
  that are free while the body of \<open>expand\<close> runs.
\<close>

definition AliasRegistry_expand ::
  "py_dict \<Rightarrow> string \<Rightarrow> bool \<Rightarrow> int \<Rightarrow> nat \<Rightarrow> py_error + string" where
  "AliasRegistry_expand aliases command recursive max_depth frames =
     (if command = [] \<or> strip command = [] then Inr command
      else
        let parts = split_ws1 command in
        if parts = [] then Inr command
        else
          case getitem parts 0 of
            Inl e \<Rightarrow> Inl e
          | Inr cmd \<Rightarrow>
              (case (if length parts > 1 then getitem parts 1 else Inr []) of
                 Inl e \<Rightarrow> Inl e
               | Inr rest \<Rightarrow>
                   if \<not> contains aliases cmd then Inr command
                   else if \<not> recursive then
                     (case dict_getitem aliases cmd of
                        Inl e \<Rightarrow> Inl e
                      | Inr expansion \<Rightarrow>
                          Inr (expansion @ (if rest \<noteq> [] then '' '' @ rest else [])))
                   else AliasRegistry_expand_recursive aliases command {} 0 max_depth frames))"

text \<open>The registry of the cycle test: \<open>define("a", "b")\<close>, then \<open>define("b", "a")\<close>.\<close>

definition two_cycle :: py_dict where
  "two_cycle =
     AliasRegistry_define (AliasRegistry_define AliasRegistry_init ''a'' ''b'') ''b'' ''a''"

text \<open>The registry of the nested-alias test: \<open>define("l", "ls")\<close>, then
  \<open>define("ll", "l -l")\<close>.\<close>

definition nested_aliases :: py_dict where
  "nested_aliases =
     AliasRegistry_define (AliasRegistry_define AliasRegistry_init ''l'' ''ls'') ''ll'' ''l -l''"

text \<open>The registry after \<open>define("a", "b")\<close>, \<open>define("b", "c")\<close> and
  \<open>define("c", "d")\<close>.\<close>

definition abcd_aliases :: py_dict where
  "abcd_aliases =
     AliasRegistry_define
       (AliasRegistry_define (AliasRegistry_define AliasRegistry_init ''a'' ''b'') ''b'' ''c'')
       ''c'' ''d''"

text \<open>
  A chain of \<open>n\<close> aliases, each one letter longer than the one before: the registry after
  \<open>define("a", "aa")\<close>, \<open>define("aa", "aaa")\<close> and so on, up to the name of \<open>n\<close> letters.
\<close>

fun alias_chain :: "nat \<Rightarrow> py_dict" where
  "alias_chain 0 = AliasRegistry_init"
| "alias_chain (Suc n) =
     AliasRegistry_define (alias_chain n) (replicate (Suc n) CHR ''a'')
       (replicate (Suc (Suc n)) CHR ''a'')"

section \<open>posixpath: join and normpath\<close>

text \<open>\<open>s.startswith(p)\<close>.\<close>

definition startswith :: "string \<Rightarrow> string \<Rightarrow> bool" where
  "startswith s p \<longleftrightarrow> take (length p) s = p"

text \<open>\<open>os.path.join(a, b)\<close> on POSIX.\<close>

definition posix_join :: "string \<Rightarrow> string \<Rightarrow> string" where
  "posix_join a b =
     (if startswith b ''/'' then b
      else if a = [] \<or> last a = CHR ''/'' then a @ b
      else a @ ''/'' @ b)"

text \<open>\<open>path.split('/')\<close> and \<open>'/'.join(comps)\<close>.\<close>

fun split_slash :: "string \<Rightarrow> string list" where
  "split_slash [] = [[]]"
| "split_slash (c # cs) =
     (if c = CHR ''/'' then [] # split_slash cs
      else (case split_slash cs of
              [] \<Rightarrow> [[c]]
            | w # ws \<Rightarrow> (c # w) # ws))"

fun join_slash :: "string list \<Rightarrow> string" where
  "join_slash [] = []"
| "join_slash [c] = c"
| "join_slash (c # d # cs) = c @ ''/'' @ join_slash (d # cs)"

text \<open>
  \<open>posixpath.normpath\<close>.  One or two leading slashes are kept as they are, three or
  more count as one.  The loop over the components drops empty components and \<open>.\<close>, and
  lets \<open>..\<close> remove the component before it; at the root of an absolute path \<open>..\<close> is
  dropped.
\<close>

definition initial_slashes :: "string \<Rightarrow> nat" where
  "initial_slashes path =
     (if startswith path ''/'' then
        (if startswith path ''//'' \<and> \<not> startswith path ''///'' then 2 else 1)
      else 0)"

fun normpath_comps :: "nat \<Rightarrow> string list \<Rightarrow> string list \<Rightarrow> string list" where
  "normpath_comps slashes [] new_comps = new_comps"
| "normpath_comps slashes (comp1 # comps) new_comps =
     (if comp1 = [] \<or> comp1 = ''.'' then normpath_comps slashes comps new_comps
      else if comp1 \<noteq> ''..'' \<or> (slashes = 0 \<and> new_comps = []) \<or>
              (new_comps \<noteq> [] \<and> last new_comps = ''..'')
        then normpath_comps slashes comps (new_comps @ [comp1])
      else if new_comps \<noteq> [] then normpath_comps slashes comps (butlast new_comps)
      else normpath_comps slashes comps new_comps)"

definition normpath :: "string \<Rightarrow> string" where
  "normpath path =
     (if path = [] then ''.''
      else
        let slashes = initial_slashes path;
            comps = normpath_comps slashes (split_slash path) [];
            joined = join_slash comps;
            result = (if slashes \<noteq> 0 then replicate slashes CHR ''/'' @ joined else joined)
        in if result = [] then ''.'' else result)"

text \<open>A component that \<open>normpath\<close> keeps: not empty, not \<open>.\<close>, not \<open>..\<close>, and without
  a slash.\<close>

definition clean_part :: "string \<Rightarrow> bool" where
  "clean_part p \<longleftrightarrow> p \<noteq> [] \<and> p \<noteq> ''.'' \<and> p \<noteq> ''..'' \<and> CHR ''/'' \<notin> set p"

section \<open>path\_manager.py: PathManager\<close>

record PathManager =
  cwd :: string
  chroot_root :: "string option"

definition PathManager_init :: "string \<Rightarrow> string option \<Rightarrow> PathManager" where
  "PathManager_init initial_cwd root = \<lparr>cwd = initial_cwd, chroot_root = root\<rparr>"

text \<open>\<open>resolve_path(path)\<close>; \<open>lstrip("/")\<close> removes every leading slash.\<close>

definition resolve_path :: "PathManager \<Rightarrow> string \<Rightarrow> string" where
  "resolve_path pm path0 =
     (let path = (if path0 = [] then cwd pm else path0) in
      case chroot_root pm of
        None \<Rightarrow>
          if startswith path ''/'' then normpath path
          else normpath (posix_join (cwd pm) path)
      | Some root \<Rightarrow>
          let virtual_path = (if startswith path ''/'' then path else posix_join (cwd pm) path);
              normalized = normpath virtual_path;
              virtual_path' =
                (if \<not> startswith normalized ''/'' then ''/'' @ normalized else normalized);
              real_path = posix_join root (dropWhile (\<lambda>c. c = CHR ''/'') virtual_path')
          in normpath real_path)"

text \<open>The managers of the chroot tests: a chroot at \<open>/var/chroot\<close> with the working
  directory \<open>/home\<close>, and a chroot at \<open>/\<close>.\<close>

definition chroot_pm :: PathManager where
  "chroot_pm = PathManager_init ''/home'' (Some ''/var/chroot'')"

definition root_pm :: PathManager where
  "root_pm = PathManager_init ''/'' (Some ''/'')"

section \<open>variable\_manager.py: VariableManager\<close>

record VariableManager =
  vm_env :: py_dict
  vm_local_scopes :: "py_dict list"

text \<open>
  \<open>__init__(initial_env)\<close>.  The home directory that \<open>os.path.expanduser("~")\<close> returns
  is a parameter.  Updating with an empty dictionary changes nothing, so the test
  \<open>if initial_env\<close> only has to tell \<open>None\<close> apart.
\<close>

definition VariableManager_init :: "string \<Rightarrow> py_dict option \<Rightarrow> VariableManager" where
  "VariableManager_init home initial_env =
     (let env0 = (case initial_env of None \<Rightarrow> Map.empty | Some ie \<Rightarrow> Map.empty ++ ie);
          env1 = env0(''?'' \<mapsto> ''0'');
          env2 = (if contains env1 ''HISTFILE'' then env1
                  else env1(''HISTFILE'' \<mapsto> posix_join home ''.agfs_shell_history''))
      in \<lparr>vm_env = env2, vm_local_scopes = []\<rparr>)"

text \<open>
  The loop \<open>for scope in scopes: if name in scope: return scope[name]\<close>; \<open>None\<close> when
  the loop ends without returning.
\<close>

fun lookup_scopes :: "py_dict list \<Rightarrow> string \<Rightarrow> (py_error + string) option" where
  "lookup_scopes [] name = None"
| "lookup_scopes (scope # scopes) name =
     (if contains scope name then Some (dict_getitem scope name)
      else lookup_scopes scopes name)"

text \<open>\<open>get(var_name, default=None)\<close>.\<close>

definition VariableManager_get ::
  "VariableManager \<Rightarrow> string \<Rightarrow> string option \<Rightarrow> py_error + string" where
  "VariableManager_get vm var_name dflt =
     (let local_key = ''_local_'' @ var_name in
      if truthy (vm_env vm ''_function_depth'') \<and> contains (vm_env vm) local_key
        then dict_getitem (vm_env vm) local_key
      else
        case lookup_scopes (rev (vm_local_scopes vm)) var_name of
          Some r \<Rightarrow> r
        | None \<Rightarrow>
            Inr (case vm_env vm var_name of
                   Some v \<Rightarrow> v
                 | None \<Rightarrow> (if truthy dflt then the dflt else [])))"

text \<open>\<open>set(var_name, value, local=False)\<close>; \<open>local_scopes[-1]\<close> is the last scope.\<close>

definition VariableManager_set ::
  "VariableManager \<Rightarrow> string \<Rightarrow> string \<Rightarrow> bool \<Rightarrow> py_error + VariableManager" where
  "VariableManager_set vm var_name val local =
     (let local_key = ''_local_'' @ var_name in
      if local \<and> vm_local_scopes vm \<noteq> [] then
        (case rev (vm_local_scopes vm) of
           [] \<Rightarrow> Inl IndexError
         | innermost # below \<Rightarrow>
             Inr (vm\<lparr>vm_local_scopes := rev below @ [innermost(var_name \<mapsto> val)],
                     vm_env := (vm_env vm)(local_key \<mapsto> val)\<rparr>))
      else if truthy (vm_env vm ''_function_depth'') \<and> contains (vm_env vm) local_key
        then Inr (vm\<lparr>vm_env := (vm_env vm)(local_key \<mapsto> val)\<rparr>)
      else Inr (vm\<lparr>vm_env := (vm_env vm)(var_name \<mapsto> val)\<rparr>))"

definition push_scope :: "VariableManager \<Rightarrow> VariableManager" where
  "push_scope vm = vm\<lparr>vm_local_scopes := vm_local_scopes vm @ [Map.empty]\<rparr>"

text \<open>
  \<open>pop_scope()\<close> returns the popped scope or raises, together with the state it leaves.
  The clean-up loop deletes the key \<open>_local_<name>\<close> from \<open>env\<close> for every name of
  the popped scope: a key is deleted when it is \<open>_local_\<close> followed by such a name.
\<close>

definition pop_scope :: "VariableManager \<Rightarrow> (py_error + py_dict) \<times> VariableManager" where
  "pop_scope vm =
     (case rev (vm_local_scopes vm) of
        [] \<Rightarrow> (Inl IndexError, vm)
      | scope # below \<Rightarrow>
          (Inr scope,
           vm\<lparr>vm_local_scopes := rev below,
              vm_env := (\<lambda>key. if startswith key ''_local_'' \<and> contains scope (drop 7 key)
                                then None else vm_env vm key)\<rparr>))"

text \<open>
  \<open>str(code)\<close> and \<open>int(s)\<close> for decimal integers.  \<open>int\<close> first maps the string to
  ASCII: a character below 127 stays, a whitespace character from 127 on becomes a blank,
  any other character becomes \<open>?\<close>.  It then skips the whitespace of the C locale at
  both ends, reads an optional sign and then digits, where single underscores may stand
  between digits; anything else raises \<open>ValueError\<close>.  (The interpreter's optional limit
  on the number of digits is a setting and not part of the model.)
\<close>

definition c_isspace :: "char \<Rightarrow> bool" where
  "c_isspace c \<longleftrightarrow>
     c = CHR 0x09 \<or> c = CHR 0x0A \<or> c = CHR 0x0B \<or> c = CHR 0x0C \<or> c = CHR 0x0D \<or>
     c = CHR 0x20"

definition to_ascii :: "char \<Rightarrow> char" where
  "to_ascii c =
     (if (of_char c :: nat) < 127 then c else if isspace c then CHR '' '' else CHR ''?'')"

definition digit_char :: "nat \<Rightarrow> char" where
  "digit_char d = ''0123456789'' ! d"

definition is_digit :: "char \<Rightarrow> bool" where
  "is_digit c \<longleftrightarrow> c \<in> set ''0123456789''"

definition digit_value :: "char \<Rightarrow> nat" where
  "digit_value c = of_char c - 48"

function str_nat :: "nat \<Rightarrow> string" where
  "str_nat n = (if n < 10 then [digit_char n] else str_nat (n div 10) @ [digit_char (n mod 10)])"
  by pat_completeness auto
termination
  by (relation "measure (\<lambda>n. n)") auto

declare str_nat.simps [simp del]

definition py_str :: "int \<Rightarrow> string" where
  "py_str i = (if i < 0 then ''-'' @ str_nat (nat (- i)) else str_nat (nat i))"

fun valid_int_body :: "string \<Rightarrow> bool" where
  "valid_int_body [] = False"
| "valid_int_body [c] = is_digit c"
| "valid_int_body (c # d # cs) =
     (is_digit c \<and> (if d = CHR ''_'' then valid_int_body cs else valid_int_body (d # cs)))"

definition digits_value :: "string \<Rightarrow> nat" where
  "digits_value ds = foldl (\<lambda>acc c. 10 * acc + digit_value c) 0 ds"

text \<open>Strings of decimal digits.\<close>

definition all_digits :: "string \<Rightarrow> bool" where
  "all_digits s \<longleftrightarrow> (\<forall>c \<in> set s. \<exists>d < 10. c = digit_char d)"

definition py_int :: "string \<Rightarrow> py_error + int" where
  "py_int s =
     (let t = rev (dropWhile c_isspace (rev (dropWhile c_isspace (map to_ascii s))));
          negative = (t \<noteq> [] \<and> hd t = CHR ''-'');
          body = (if t \<noteq> [] \<and> (hd t = CHR ''-'' \<or> hd t = CHR ''+'') then tl t else t)
      in if valid_int_body body
         then Inr ((if negative then - 1 else 1) *
                   int (digits_value (filter (\<lambda>c. c \<noteq> CHR ''_'') body)))
         else Inl ValueError)"

text \<open>\<open>set_exit_code(code)\<close> and \<open>get_exit_code()\<close>; a \<open>ValueError\<close> of \<open>int\<close> is caught
  and gives 0.\<close>

definition set_exit_code :: "VariableManager \<Rightarrow> int \<Rightarrow> VariableManager" where
  "set_exit_code vm code = vm\<lparr>vm_env := (vm_env vm)(''?'' \<mapsto> py_str code)\<rparr>"

definition get_exit_code :: "VariableManager \<Rightarrow> int" where
  "get_exit_code vm =
     (case py_int (case vm_env vm ''?'' of None \<Rightarrow> ''0'' | Some v \<Rightarrow> v) of
        Inl e \<Rightarrow> 0
      | Inr n \<Rightarrow> n)"

section \<open>context.py: CommandContext\<close>

text \<open>
  Of the dataclass, the fields that variable handling reads.  \<open>cc_shell\<close> stands for the
  optional Shell reference; of the Shell only \<open>expression_expander.expand\<close> is called.
\<close>

record CommandContext =
  cc_cwd :: string
  cc_env :: py_dict
  cc_local_scopes :: "py_dict list"
  cc_shell :: "(string \<Rightarrow> py_error + string) option"

text \<open>\<open>CommandContext(env=...)\<close> with the defaults of the other fields.\<close>

definition CommandContext_init :: "py_dict \<Rightarrow> CommandContext" where
  "CommandContext_init e =
     \<lparr>cc_cwd = ''/'', cc_env = e, cc_local_scopes = [], cc_shell = None\<rparr>"

definition get_variable :: "CommandContext \<Rightarrow> string \<Rightarrow> py_error + string option" where
  "get_variable ctx name =
     (case lookup_scopes (rev (cc_local_scopes ctx)) name of
        Some (Inl e) \<Rightarrow> Inl e
      | Some (Inr v) \<Rightarrow> Inr (Some v)
      | None \<Rightarrow> Inr (cc_env ctx name))"

definition set_variable ::
  "CommandContext \<Rightarrow> string \<Rightarrow> string \<Rightarrow> bool \<Rightarrow> py_error + CommandContext" where
  "set_variable ctx name val local =
     (if local \<and> cc_local_scopes ctx \<noteq> [] then
        (case rev (cc_local_scopes ctx) of
           [] \<Rightarrow> Inl IndexError
         | innermost # below \<Rightarrow>
             Inr (ctx\<lparr>cc_local_scopes := rev below @ [innermost(name \<mapsto> val)]\<rparr>))
      else Inr (ctx\<lparr>cc_env := (cc_env ctx)(name \<mapsto> val)\<rparr>))"

definition push_local_scope :: "CommandContext \<Rightarrow> CommandContext" where
  "push_local_scope ctx = ctx\<lparr>cc_local_scopes := cc_local_scopes ctx @ [Map.empty]\<rparr>"

definition pop_local_scope :: "CommandContext \<Rightarrow> py_error + CommandContext" where
  "pop_local_scope ctx =
     (if cc_local_scopes ctx \<noteq> [] then
        (case rev (cc_local_scopes ctx) of
           [] \<Rightarrow> Inl IndexError
         | innermost # below \<Rightarrow> Inr (ctx\<lparr>cc_local_scopes := rev below\<rparr>))
      else Inr ctx)"

text \<open>States used as concrete inputs below.\<close>

definition shadow_vm :: VariableManager where
  "shadow_vm = \<lparr>vm_env = [''x'' \<mapsto> ''global''], vm_local_scopes = [[''y'' \<mapsto> ''1'']]\<rparr>"

definition depth_vm :: VariableManager where
  "depth_vm = \<lparr>vm_env = [''_local__function_depth'' \<mapsto> ''zzz''], vm_local_scopes = []\<rparr>"

definition scoped_ctx :: CommandContext where
  "scoped_ctx =
     \<lparr>cc_cwd = ''/'', cc_env = [''USER'' \<mapsto> ''alice''], cc_local_scopes = [[''Y'' \<mapsto> ''1'']],
      cc_shell = None\<rparr>"

text \<open>The character classes \<open>[a-zA-Z_]\<close> and \<open>[a-zA-Z0-9_]\<close> of the two patterns.\<close>

definition ident_start :: "char \<Rightarrow> bool" where
  "ident_start c \<longleftrightarrow>
     (let n = (of_char c :: nat) in (97 \<le> n \<and> n \<le> 122) \<or> (65 \<le> n \<and> n \<le> 90) \<or> n = 95)"

definition ident_char :: "char \<Rightarrow> bool" where
  "ident_char c \<longleftrightarrow>
     ident_start c \<or> (let n = (of_char c :: nat) in 48 \<le> n \<and> n \<le> 57)"

text \<open>The names that the group \<open>[a-zA-Z_][a-zA-Z0-9_]*\<close> matches in full.\<close>

definition is_identifier :: "string \<Rightarrow> bool" where
  "is_identifier name \<longleftrightarrow> name \<noteq> [] \<and> ident_start (hd name) \<and> list_all ident_char name"

text \<open>
  The callbacks \<open>replace_braced\<close> and \<open>replace_simple\<close>:
  \<open>self.get_variable(var_name) or ''\<close>.
\<close>

definition replace_var :: "CommandContext \<Rightarrow> string \<Rightarrow> py_error + string" where
  "replace_var ctx var_name =
     (case get_variable ctx var_name of
        Inl e \<Rightarrow> Inl e
      | Inr v \<Rightarrow> Inr (if truthy v then the v else []))"

text \<open>
  \<open>re.sub(r'\$\{([a-zA-Z_][a-zA-Z0-9_]*)\}', repl, text)\<close>: scanning from the left, a
  match starts at a \<open>$\<close> followed by \<open>{\<close>, a name and \<open>}\<close>; the name is the longest run
  of name characters, since the character after it has to be \<open>}\<close>.  A match is replaced
  by the callback's result and scanning goes on after it; any other character is copied.
\<close>

function sub_braced :: "(string \<Rightarrow> py_error + string) \<Rightarrow> string \<Rightarrow> py_error + string" where
  "sub_braced repl [] = Inr []"
| "sub_braced repl (c # cs) =
     (if c = CHR ''$'' \<and> startswith cs ''{'' \<and> tl cs \<noteq> [] \<and> ident_start (hd (tl cs)) \<and>
         startswith (dropWhile ident_char (tl cs)) ''}''
      then
        (case repl (takeWhile ident_char (tl cs)) of
           Inl e \<Rightarrow> Inl e
         | Inr v \<Rightarrow>
             (case sub_braced repl (tl (dropWhile ident_char (tl cs))) of
                Inl e \<Rightarrow> Inl e
              | Inr r \<Rightarrow> Inr (v @ r)))
      else
        (case sub_braced repl cs of
           Inl e \<Rightarrow> Inl e
         | Inr r \<Rightarrow> Inr (c # r)))"
  by pat_completeness auto
termination
proof (relation "measure (\<lambda>(repl, s). length s)")
  show "wf (measure (\<lambda>(repl :: string \<Rightarrow> py_error + string, s :: string). length s))"
    by simp
next
  fix repl :: "string \<Rightarrow> py_error + string" and c :: char and cs x2 :: string
  have "length (tl (dropWhile ident_char (tl cs))) \<le> length cs"
    by (metis diff_le_self le_trans length_dropWhile_le length_tl)
  then show "((repl, tl (dropWhile ident_char (tl cs))), repl, c # cs)
      \<in> measure (\<lambda>(repl, s). length s)"
    by simp
next
  fix repl :: "string \<Rightarrow> py_error + string" and c :: char and cs :: string
  show "((repl, cs), repl, c # cs) \<in> measure (\<lambda>(repl, s). length s)"
    by simp
qed

text \<open>\<open>re.sub(r'\$([a-zA-Z_][a-zA-Z0-9_]*)', repl, text)\<close>: a match is a \<open>$\<close> followed by
  the longest name that starts there.\<close>

function sub_simple :: "(string \<Rightarrow> py_error + string) \<Rightarrow> string \<Rightarrow> py_error + string" where
  "sub_simple repl [] = Inr []"
| "sub_simple repl (c # cs) =
     (if c = CHR ''$'' \<and> cs \<noteq> [] \<and> ident_start (hd cs)
      then
        (case repl (takeWhile ident_char cs) of
           Inl e \<Rightarrow> Inl e
         | Inr v \<Rightarrow>
             (case sub_simple repl (dropWhile ident_char cs) of
                Inl e \<Rightarrow> Inl e
              | Inr r \<Rightarrow> Inr (v @ r)))
      else
        (case sub_simple repl cs of
           Inl e \<Rightarrow> Inl e
         | Inr r \<Rightarrow> Inr (c # r)))"
  by pat_completeness auto
termination
proof (relation "measure (\<lambda>(repl, s). length s)")
  show "wf (measure (\<lambda>(repl :: string \<Rightarrow> py_error + string, s :: string). length s))"
    by simp
next
  fix repl :: "string \<Rightarrow> py_error + string" and c :: char and cs x2 :: string
  have "length (dropWhile ident_char cs) \<le> length cs"
    by (rule length_dropWhile_le)
  then show "((repl, dropWhile ident_char cs), repl, c # cs) \<in> measure (\<lambda>(repl, s). length s)"
    by simp
next
  fix repl :: "string \<Rightarrow> py_error + string" and c :: char and cs :: string
  show "((repl, cs), repl, c # cs) \<in> measure (\<lambda>(repl, s). length s)"
    by simp
qed

text \<open>\<open>expand_variables(text)\<close>: with a Shell attached the Shell's expander does the work;
  without one the braced pattern is substituted first, then the simple one.\<close>

definition expand_variables :: "CommandContext \<Rightarrow> string \<Rightarrow> py_error + string" where
  "expand_variables ctx text0 =
     (case cc_shell ctx of
        Some shell_expand \<Rightarrow> shell_expand text0
      | None \<Rightarrow>
          (case sub_braced (replace_var ctx) text0 of
             Inl e \<Rightarrow> Inl e
           | Inr text1 \<Rightarrow> sub_simple (replace_var ctx) text1))"

section \<open>exceptions.py: the error classes\<close>

text \<open>
  An exception object carries the attributes that \<open>ShellError.__init__\<close> sets, and its
  class.  Each \<open>__init__\<close> below passes its arguments up the chain of \<open>super().__init__\<close>
  calls as the source does; an argument with a default is an option.
\<close>

datatype error_class =
  ShellError | CommandError | CommandNotFoundError | InvalidArgumentError | CommandSyntaxError
  | ParsingError | UnmatchedQuoteError | UnmatchedBracketError | InvalidSyntaxError

record shell_exception =
  error_class :: error_class
  message :: string
  exit_code :: int

definition ShellError_init :: "error_class \<Rightarrow> string \<Rightarrow> int option \<Rightarrow> shell_exception" where
  "ShellError_init cls msg code =
     \<lparr>error_class = cls, message = msg,
      exit_code = (case code of None \<Rightarrow> 1 | Some n \<Rightarrow> n)\<rparr>"

definition CommandError_init ::
  "error_class \<Rightarrow> string \<Rightarrow> string \<Rightarrow> int option \<Rightarrow> shell_exception" where
  "CommandError_init cls command msg code =
     ShellError_init cls msg (Some (case code of None \<Rightarrow> 1 | Some n \<Rightarrow> n))"

definition CommandNotFoundError_init :: "string \<Rightarrow> shell_exception" where
  "CommandNotFoundError_init command =
     CommandError_init CommandNotFoundError command (command @ '': command not found'') (Some 127)"

definition InvalidArgumentError_init :: "string \<Rightarrow> string \<Rightarrow> string option \<Rightarrow> shell_exception" where
  "InvalidArgumentError_init command argument msg =
     CommandError_init InvalidArgumentError command
       (case msg of None \<Rightarrow> command @ '': '' @ argument @ '': invalid argument'' | Some m \<Rightarrow> m)
       (Some 1)"

definition CommandSyntaxError_init :: "string \<Rightarrow> string \<Rightarrow> shell_exception" where
  "CommandSyntaxError_init command details =
     CommandError_init CommandSyntaxError command (command @ '': '' @ details) (Some 2)"

definition ParsingError_init ::
  "error_class \<Rightarrow> string \<Rightarrow> string option \<Rightarrow> int option \<Rightarrow> shell_exception" where
  "ParsingError_init cls msg line position = ShellError_init cls msg (Some 2)"

definition UnmatchedQuoteError_init :: "string \<Rightarrow> string option \<Rightarrow> shell_exception" where
  "UnmatchedQuoteError_init line quote_char =
     ParsingError_init UnmatchedQuoteError
       (''Unmatched '' @ (case quote_char of None \<Rightarrow> [CHR 0x22] | Some q \<Rightarrow> q) @ '' in command'')
       (Some line) None"

definition UnmatchedBracketError_init :: "string \<Rightarrow> string \<Rightarrow> shell_exception" where
  "UnmatchedBracketError_init line bracket_char =
     ParsingError_init UnmatchedBracketError (''Unmatched '' @ bracket_char @ '' in command'')
       (Some line) None"

definition InvalidSyntaxError_init :: "string \<Rightarrow> string \<Rightarrow> shell_exception" where
  "InvalidSyntaxError_init line details =
     ParsingError_init InvalidSyntaxError (''Syntax error: '' @ details) (Some line) None"

section \<open>Facts about the string helpers\<close>

lemma isspace_simps [simp]:
  "isspace CHR '' ''" "\<not> isspace CHR ''a''" "\<not> isspace CHR ''b''" "\<not> isspace CHR ''l''"
  "\<not> isspace CHR ''s''" "\<not> isspace CHR ''-''" "\<not> isspace CHR ''/''" "\<not> isspace CHR ''t''"
  "\<not> isspace CHR ''m''" "\<not> isspace CHR ''p''"
  by (simp_all add: isspace_def)

lemma split_ws1_eq:
  "split_ws1 s =
     (if dropWhile isspace s = [] then []
      else if dropWhile isspace (dropWhile (\<lambda>c. \<not> isspace c) (dropWhile isspace s)) = []
        then [takeWhile (\<lambda>c. \<not> isspace c) (dropWhile isspace s)]
        else [takeWhile (\<lambda>c. \<not> isspace c) (dropWhile isspace s),
              dropWhile isspace (dropWhile (\<lambda>c. \<not> isspace c) (dropWhile isspace s))])"
  unfolding split_ws1_def Let_def ..

lemma split_ws1_cases:
  "split_ws1 s = [] \<or> (\<exists>w. split_ws1 s = [w]) \<or> (\<exists>w r. split_ws1 s = [w, r])"
proof (cases "dropWhile isspace s = []")
  case True
  then have "split_ws1 s = []" by (simp only: split_ws1_eq if_True simp_thms)
  then show ?thesis by (rule disjI1)
next
  case False
  show ?thesis
  proof (cases "dropWhile isspace (dropWhile (\<lambda>c. \<not> isspace c) (dropWhile isspace s)) = []")
    case True
    with False have "split_ws1 s = [takeWhile (\<lambda>c. \<not> isspace c) (dropWhile isspace s)]"
      by (simp only: split_ws1_eq if_True if_False simp_thms)
    then show ?thesis by blast
  next
    case nr: False
    with False have "split_ws1 s = [takeWhile (\<lambda>c. \<not> isspace c) (dropWhile isspace s),
        dropWhile isspace (dropWhile (\<lambda>c. \<not> isspace c) (dropWhile isspace s))]"
      by (simp only: split_ws1_eq if_True if_False simp_thms)
    then show ?thesis by blast
  qed
qed

lemma Ball_dropWhile: "(\<forall>x \<in> set (dropWhile P s). P x) \<longleftrightarrow> (\<forall>x \<in> set s. P x)"
  by (induction s) auto

lemma split_ws1_Nil_iff: "split_ws1 s = [] \<longleftrightarrow> (\<forall>c \<in> set s. isspace c)"
proof -
  have "split_ws1 s = [] \<longleftrightarrow> dropWhile isspace s = []"
  proof (cases "dropWhile isspace s = []")
    case True
    then show ?thesis by (simp only: split_ws1_eq if_True simp_thms)
  next
    case False
    then show ?thesis
      by (cases "dropWhile isspace (dropWhile (\<lambda>c. \<not> isspace c) (dropWhile isspace s)) = []")
         (simp_all only: split_ws1_eq if_True if_False simp_thms list.simps)
  qed
  then show ?thesis by (simp only: dropWhile_eq_Nil_conv)
qed

lemma strip_Nil_iff: "strip s = [] \<longleftrightarrow> (\<forall>c \<in> set s. isspace c)"
  by (simp add: strip_def Ball_dropWhile)

lemma split_ws1_word:
  assumes "w \<noteq> []" "\<forall>c \<in> set w. \<not> isspace c"
  shows "split_ws1 w = [w]"
proof -
  from assms have a: "dropWhile isspace w = w" by (cases w) auto
  from assms have b: "takeWhile (\<lambda>c. \<not> isspace c) w = w" by simp
  from assms have c: "dropWhile (\<lambda>c. \<not> isspace c) w = []" by simp
  show ?thesis unfolding split_ws1_def Let_def a b c using assms by simp
qed

lemma split_ws1_shape:
  assumes "split_ws1 s = w # rs"
  shows "w \<noteq> [] \<and> (\<forall>c \<in> set w. \<not> isspace c) \<and>
         (\<exists>lead sep. s = lead @ w @ sep @ concat rs \<and> (\<forall>c \<in> set lead. isspace c) \<and>
            (\<forall>c \<in> set sep. isspace c) \<and>
            (concat rs \<noteq> [] \<longrightarrow> sep \<noteq> [] \<and> \<not> isspace (hd (concat rs)))) \<and>
         (rs = [] \<or> (\<exists>r. rs = [r] \<and> r \<noteq> [] \<and> \<not> isspace (hd r)))"
proof -
  define t where "t = dropWhile isspace s"
  define u where "u = dropWhile (\<lambda>c. \<not> isspace c) t"
  define r where "r = dropWhile isspace u"
  have sp: "split_ws1 s = (if t = [] then [] else if r = [] then [takeWhile (\<lambda>c. \<not> isspace c) t]
      else [takeWhile (\<lambda>c. \<not> isspace c) t, r])"
    unfolding split_ws1_def Let_def t_def u_def r_def ..
  have tn: "t \<noteq> []"
  proof
    assume "t = []"
    with sp assms show False by simp
  qed
  from sp tn assms have w: "w = takeWhile (\<lambda>c. \<not> isspace c) t"
    by (cases "r = []") simp_all
  from sp tn assms have rs: "rs = (if r = [] then [] else [r])"
    by (cases "r = []") simp_all
  have s: "s = takeWhile isspace s @ t" by (simp add: t_def)
  have t: "t = w @ u" by (simp add: w u_def)
  have u: "u = takeWhile isspace u @ r" by (simp add: r_def)
  have hd_t: "\<not> isspace (hd t)" using tn unfolding t_def by (metis hd_dropWhile)
  have wn: "w \<noteq> []" using tn hd_t unfolding w by (cases t) auto
  have ww: "\<forall>c \<in> set w. \<not> isspace c" unfolding w by (auto dest: set_takeWhileD)
  have lead: "\<forall>c \<in> set (takeWhile isspace s). isspace c" by (auto dest: set_takeWhileD)
  have sep: "\<forall>c \<in> set (takeWhile isspace u). isspace c" by (auto dest: set_takeWhileD)
  have hd_r: "r \<noteq> [] \<Longrightarrow> \<not> isspace (hd r)" unfolding r_def by (metis hd_dropWhile)
  have cat: "s = takeWhile isspace s @ w @ takeWhile isspace u @ concat rs"
  proof -
    have "concat rs = r" by (simp add: rs)
    then have "takeWhile isspace u @ concat rs = u" using u by simp
    then have "w @ takeWhile isspace u @ concat rs = t" using t by simp
    then show ?thesis using s by simp
  qed
  have cr: "concat rs = r" by (simp add: rs)
  have sepne: "takeWhile isspace u \<noteq> []" if "concat rs \<noteq> []"
  proof -
    from that cr have "u \<noteq> []" unfolding r_def by auto
    then have "isspace (hd u)" unfolding u_def by (metis hd_dropWhile)
    with \<open>u \<noteq> []\<close> show ?thesis by (cases u) auto
  qed
  have tail: "concat rs \<noteq> [] \<longrightarrow> takeWhile isspace u \<noteq> [] \<and> \<not> isspace (hd (concat rs))"
    using sepne hd_r cr by simp
  have ex: "\<exists>lead sep. s = lead @ w @ sep @ concat rs \<and> (\<forall>c \<in> set lead. isspace c) \<and>
            (\<forall>c \<in> set sep. isspace c) \<and>
            (concat rs \<noteq> [] \<longrightarrow> sep \<noteq> [] \<and> \<not> isspace (hd (concat rs)))"
    using cat lead sep tail by (intro exI conjI)
  have last: "rs = [] \<or> (\<exists>r. rs = [r] \<and> r \<noteq> [] \<and> \<not> isspace (hd r))"
    using rs hd_r by (cases "r = []") simp_all
  from wn ww ex last show ?thesis by (intro conjI)
qed

section \<open>AliasRegistry: expansion\<close>

lemma expand_recursive_unfold:
  "AliasRegistry_expand_recursive al c seen d md f =
     (if f = 0 then Inl RecursionError
      else if md \<le> d then Inr c
      else case split_ws1 c of
        [] \<Rightarrow> Inr c
      | cmd # rs \<Rightarrow>
          (case al cmd of
             None \<Rightarrow> Inr c
           | Some expansion \<Rightarrow>
               if cmd \<in> seen then Inr c
               else (case AliasRegistry_expand_recursive al expansion (insert cmd seen) (d + 1) md
                            (f - 1) of
                       Inl e \<Rightarrow> Inl e
                     | Inr x \<Rightarrow> Inr (x @ (if concat rs \<noteq> [] then '' '' @ concat rs else [])))))"
proof -
  consider "split_ws1 c = []" | w where "split_ws1 c = [w]" | w r where "split_ws1 c = [w, r]"
    using split_ws1_cases [of c] by blast
  then show ?thesis
  proof cases
    case 1
    then show ?thesis by (subst AliasRegistry_expand_recursive.simps) simp
  next
    case 2
    then show ?thesis
      by (subst AliasRegistry_expand_recursive.simps)
         (simp add: getitem_def contains_def dict_getitem_def split: option.splits)
  next
    case 3
    then show ?thesis
      by (subst AliasRegistry_expand_recursive.simps)
         (simp add: getitem_def contains_def dict_getitem_def split: option.splits sum.splits)
  qed
qed

lemma expand_unfold:
  "AliasRegistry_expand al c r md f =
     (case split_ws1 c of
        [] \<Rightarrow> Inr c
      | cmd # rs \<Rightarrow>
          (case al cmd of
             None \<Rightarrow> Inr c
           | Some expansion \<Rightarrow>
               if \<not> r then Inr (expansion @ (if concat rs \<noteq> [] then '' '' @ concat rs else []))
               else AliasRegistry_expand_recursive al c {} 0 md f))"
proof (cases "split_ws1 c")
  case Nil
  then have "strip c = []" by (simp add: split_ws1_Nil_iff strip_Nil_iff)
  with Nil show ?thesis by (simp add: AliasRegistry_expand_def)
next
  case (Cons cmd rs)
  then have ne: "strip c \<noteq> []" "c \<noteq> []"
    using split_ws1_Nil_iff [of c] strip_Nil_iff [of c] by auto
  from Cons split_ws1_cases [of c] consider "rs = []" | r' where "rs = [r']"
    by auto
  then show ?thesis
  proof cases
    case 1
    with Cons have "split_ws1 c = [cmd]" by simp
    then show ?thesis
      by (simp add: AliasRegistry_expand_def ne getitem_def contains_def dict_getitem_def
          split: option.splits)
  next
    case 2
    with Cons have "split_ws1 c = [cmd, r']" by simp
    then show ?thesis
      by (simp add: AliasRegistry_expand_def ne getitem_def contains_def dict_getitem_def
          split: option.splits)
  qed
qed

text \<open>Enough frames for the depth cap: no error.\<close>

lemma expand_recursive_Inr_depth:
  "nat (md - d) < f \<Longrightarrow> \<exists>s. AliasRegistry_expand_recursive al c seen d md f = Inr s"
proof (induction "nat (md - d)" arbitrary: c seen d f)
  case 0
  then show ?case by (subst expand_recursive_unfold) simp
next
  case (Suc n)
  from Suc.hyps(2) have n: "n = nat (md - (d + 1))" by simp
  from Suc.hyps(2) Suc.prems have "nat (md - (d + 1)) < f - 1" by simp
  from Suc.hyps(1) [OF n this]
  have IH: "\<exists>s. AliasRegistry_expand_recursive al c' seen' (d + 1) md (f - 1) = Inr s"
    for c' seen' .
  from Suc.prems have f0: "f \<noteq> 0" by simp
  show ?case
  proof (cases "split_ws1 c")
    case Nil
    with f0 show ?thesis by (subst expand_recursive_unfold) simp
  next
    case (Cons cmd rs)
    show ?thesis
    proof (cases "al cmd")
      case None
      with Cons f0 show ?thesis by (subst expand_recursive_unfold) simp
    next
      case (Some expansion)
      obtain x where
        "AliasRegistry_expand_recursive al expansion (insert cmd seen) (d + 1) md (f - 1) = Inr x"
        using IH by blast
      with Cons Some f0 show ?thesis by (subst expand_recursive_unfold) simp
    qed
  qed
qed

text \<open>Enough frames for the aliases not yet seen: no error either.\<close>

lemma expand_recursive_Inr_seen:
  "finite (dom al) \<Longrightarrow> card (dom al - seen) < f \<Longrightarrow>
   \<exists>s. AliasRegistry_expand_recursive al c seen d md f = Inr s"
proof (induction f arbitrary: c seen d)
  case 0
  then show ?case by simp
next
  case (Suc f)
  show ?case
  proof (cases "split_ws1 c")
    case Nil
    then show ?thesis by (subst expand_recursive_unfold) simp
  next
    case (Cons cmd rs)
    show ?thesis
    proof (cases "al cmd")
      case None
      with Cons show ?thesis by (subst expand_recursive_unfold) simp
    next
      case (Some expansion)
      show ?thesis
      proof (cases "cmd \<in> seen")
        case True
        with Cons Some show ?thesis by (subst expand_recursive_unfold) simp
      next
        case False
        with Some have mem: "cmd \<in> dom al - seen" by auto
        have eq: "dom al - insert cmd seen = (dom al - seen) - {cmd}" by auto
        from Suc.prems(1) have "finite (dom al - seen)" by simp
        from card_Diff1_less [OF this mem]
        have "card (dom al - insert cmd seen) < card (dom al - seen)"
          unfolding eq .
        with Suc.prems(2) have "card (dom al - insert cmd seen) < f" by simp
        from Suc.IH [OF Suc.prems(1) this]
        obtain x where
          "AliasRegistry_expand_recursive al expansion (insert cmd seen) (d + 1) md f = Inr x"
          by blast
        with Cons Some False show ?thesis by (subst expand_recursive_unfold) simp
      qed
    qed
  qed
qed

lemma expand_Inr:
  "nat md < f \<or> (finite (dom al) \<and> card (dom al) < f) \<Longrightarrow>
   \<exists>s. AliasRegistry_expand al c r md f = Inr s"
proof -
  assume a: "nat md < f \<or> (finite (dom al) \<and> card (dom al) < f)"
  have "\<exists>s. AliasRegistry_expand_recursive al c {} 0 md f = Inr s"
  proof (cases "nat md < f")
    case True
    then show ?thesis using expand_recursive_Inr_depth [of md 0 f al c "{}"] by simp
  next
    case False
    with a show ?thesis using expand_recursive_Inr_seen [of al "{}" f c 0 md] by simp
  qed
  then show ?thesis
    unfolding expand_unfold by (simp split: list.splits option.splits)
qed

lemma expand_recursive_depth_cap:
  "0 < f \<Longrightarrow> max_depth \<le> depth \<Longrightarrow>
   AliasRegistry_expand_recursive al c seen depth max_depth f = Inr c"
  by (subst expand_recursive_unfold) simp

lemma expand_recursive_cycle:
  "0 < f \<Longrightarrow> split_ws1 c = cmd # rs \<Longrightarrow> cmd \<in> seen \<Longrightarrow>
   AliasRegistry_expand_recursive al c seen depth max_depth f = Inr c"
  by (subst expand_recursive_unfold) (simp split: option.splits)

lemma expand_recursive_step:
  "0 < f \<Longrightarrow> depth < max_depth \<Longrightarrow> split_ws1 c = cmd # rs \<Longrightarrow> al cmd = Some expansion \<Longrightarrow>
   cmd \<notin> seen \<Longrightarrow>
   AliasRegistry_expand_recursive al c seen depth max_depth f =
     (case AliasRegistry_expand_recursive al expansion (insert cmd seen) (depth + 1) max_depth
             (f - 1) of
        Inl e \<Rightarrow> Inl e
      | Inr x \<Rightarrow> Inr (x @ (if concat rs \<noteq> [] then '' '' @ concat rs else [])))"
  by (subst expand_recursive_unfold) simp

lemma three_frames: "3 \<le> f \<Longrightarrow> \<exists>k. f = Suc (Suc (Suc k))"
  by (metis Suc_le_D Suc_le_mono numeral_3_eq_3)

lemma expand_two_cycle: "3 \<le> f \<Longrightarrow> AliasRegistry_expand two_cycle ''a'' True 10 f = Inr ''a''"
proof -
  assume "3 \<le> f"
  then obtain k where "f = Suc (Suc (Suc k))" using three_frames by blast
  then show ?thesis
    by (simp add: two_cycle_def AliasRegistry_expand_def strip_def split_ws1_def getitem_def
        contains_def dict_getitem_def AliasRegistry_define_def AliasRegistry_init_def
        AliasRegistry_expand_recursive.simps)
qed

lemma expand_depth_cap_abcd:
  "3 \<le> f \<Longrightarrow> AliasRegistry_expand abcd_aliases ''a x'' True 2 f = Inr ''c x''"
proof -
  assume "3 \<le> f"
  then obtain k where "f = Suc (Suc (Suc k))" using three_frames by blast
  then show ?thesis
    by (simp add: abcd_aliases_def AliasRegistry_expand_def strip_def split_ws1_def getitem_def
        contains_def dict_getitem_def AliasRegistry_define_def AliasRegistry_init_def
        AliasRegistry_expand_recursive.simps isspace_def)
qed

lemma replicate_a_eq: "replicate k CHR ''a'' = replicate j CHR ''a'' \<longleftrightarrow> k = j"
  by (metis length_replicate)

lemma alias_chain_lookup:
  "alias_chain n (replicate k CHR ''a'') =
     (if 0 < k \<and> k \<le> n then Some (replicate (Suc k) CHR ''a'') else None)"
proof (induction n)
  case 0
  then show ?case by (auto simp: AliasRegistry_init_def)
next
  case (Suc n)
  have "alias_chain (Suc n) (replicate k CHR ''a'') =
          (if replicate k CHR ''a'' = replicate (Suc n) CHR ''a''
           then Some (replicate (Suc (Suc n)) CHR ''a'')
           else alias_chain n (replicate k CHR ''a''))"
    by (simp only: alias_chain.simps AliasRegistry_define_def fun_upd_apply)
  also have "\<dots> = (if k = Suc n then Some (replicate (Suc (Suc n)) CHR ''a'')
                      else alias_chain n (replicate k CHR ''a''))"
    by (simp only: replicate_a_eq)
  finally show ?case using Suc.IH by auto
qed

lemma split_ws1_replicate_a:
  "0 < k \<Longrightarrow> split_ws1 (replicate k CHR ''a'') = [replicate k CHR ''a'']"
  by (rule split_ws1_word) auto

lemma alias_chain_overflow:
  "0 < k \<Longrightarrow> f + k \<le> Suc n \<Longrightarrow> int f \<le> md - d \<Longrightarrow> \<forall>s \<in> seen. length s < k \<Longrightarrow>
   AliasRegistry_expand_recursive (alias_chain n) (replicate k CHR ''a'') seen d md f
     = Inl RecursionError"
proof (induction f arbitrary: k seen d)
  case 0
  then show ?case by (subst expand_recursive_unfold) simp
next
  case (Suc f)
  from Suc.prems have kn: "k \<le> n" and dm: "d < md" by simp_all
  have sp: "split_ws1 (replicate k CHR ''a'') = replicate k CHR ''a'' # []"
    using split_ws1_replicate_a [OF Suc.prems(1)] by simp
  have al: "alias_chain n (replicate k CHR ''a'') = Some (replicate (Suc k) CHR ''a'')"
    using Suc.prems(1) kn by (simp only: alias_chain_lookup) simp
  have ns: "replicate k CHR ''a'' \<notin> seen" using Suc.prems(4) by auto
  have "AliasRegistry_expand_recursive (alias_chain n) (replicate (Suc k) CHR ''a'')
          (insert (replicate k CHR ''a'') seen) (d + 1) md f = Inl RecursionError"
  proof (rule Suc.IH)
    show "0 < Suc k" by simp
    show "f + Suc k \<le> Suc n" using Suc.prems(2) by simp
    show "int f \<le> md - (d + 1)" using Suc.prems(3) by simp
    show "\<forall>s \<in> insert (replicate k CHR ''a'') seen. length s < Suc k"
      using Suc.prems(4) by auto
  qed
  moreover have "0 < Suc f" by simp
  from expand_recursive_step [where al = "alias_chain n" and cmd = "replicate k CHR ''a''",
      OF this dm sp al ns]
  have "AliasRegistry_expand_recursive (alias_chain n) (replicate k CHR ''a'') seen d md (Suc f) =
          (case AliasRegistry_expand_recursive (alias_chain n) (replicate (Suc k) CHR ''a'')
                  (insert (replicate k CHR ''a'') seen) (d + 1) md f of
             Inl e \<Rightarrow> Inl e
           | Inr x \<Rightarrow> Inr (x @ []))"
    by simp
  ultimately show ?case by simp
qed

text \<open>
  C2.  That \<open>expand\<close> never raises for every registry and every \<open>max_depth\<close> fails: the
  function calls itself once for each alias it follows, so a chain of 1000 aliases
  expanded with \<open>max_depth = 2000\<close> needs more than the 1000 frames of the interpreter's
  default recursion limit, and the call raises \<open>RecursionError\<close>.
\<close>

theorem expand_long_chain_counterexample:
  "AliasRegistry_expand (alias_chain 1000) ''a'' True 2000 1000 = Inl RecursionError"
proof -
  have r: "replicate 1 CHR ''a'' = ''a''" by simp
  have "AliasRegistry_expand_recursive (alias_chain 1000) (replicate 1 CHR ''a'') {} 0 2000 1000
          = Inl RecursionError"
    by (rule alias_chain_overflow) simp_all
  then have rec: "AliasRegistry_expand_recursive (alias_chain 1000) ''a'' {} 0 2000 1000
          = Inl RecursionError"
    unfolding r .
  have sp: "split_ws1 ''a'' = [''a'']" using split_ws1_replicate_a [of 1] unfolding r by simp
  have al: "alias_chain 1000 ''a'' = Some ''aa''"
    using alias_chain_lookup [of 1000 1] unfolding r by simp
  show ?thesis unfolding expand_unfold sp using al rec by simp
qed

text \<open>
  C2, as the code has it.  \<open>expand\<close> always terminates (the recursion is well founded on
  \<open>max_depth - depth\<close>, see the termination proof of \<open>AliasRegistry_expand_recursive\<close>),
  and it returns a string and raises nothing whenever more than \<open>max_depth\<close> frames are
  free, or more frames than the registry has aliases.  When the depth cap is reached, and
  when the first word is an alias already seen in the chain, the command at hand is
  returned as it is; otherwise an alias is replaced by the expansion of its expansion,
  followed by the rest.  So a chain cut by the cap gives the partially expanded string
  (\<open>a \<rightarrow> b \<rightarrow> c \<rightarrow> d\<close> with \<open>max_depth = 2\<close> turns \<open>a x\<close> into \<open>c x\<close>), and after
  \<open>define("a", "b")\<close> and \<open>define("b", "a")\<close> \<open>expand("a")\<close> returns \<open>"a"\<close>.
\<close>

theorem expand_terminates_within_stack:
  "(nat max_depth < frames \<or> (finite (dom al) \<and> card (dom al) < frames) \<longrightarrow>
      (\<exists>s. AliasRegistry_expand al command recursive max_depth frames = Inr s)) \<and>
   (0 < frames \<and> max_depth \<le> depth \<longrightarrow>
      AliasRegistry_expand_recursive al command seen depth max_depth frames = Inr command) \<and>
   (0 < frames \<longrightarrow> (\<forall>cmd \<in> seen. \<forall>rs. split_ws1 command = cmd # rs \<longrightarrow>
      AliasRegistry_expand_recursive al command seen depth max_depth frames = Inr command)) \<and>
   (0 < f' \<and> d' < md' \<and> split_ws1 c' = cmd' # rs' \<and> al' cmd' = Some expansion \<and> cmd' \<notin> seen'
      \<longrightarrow> AliasRegistry_expand_recursive al' c' seen' d' md' f' =
            (case AliasRegistry_expand_recursive al' expansion (insert cmd' seen') (d' + 1) md'
                    (f' - 1) of
               Inl e \<Rightarrow> Inl e
             | Inr x \<Rightarrow> Inr (x @ (if concat rs' \<noteq> [] then '' '' @ concat rs' else [])))) \<and>
   (3 \<le> frames \<longrightarrow> AliasRegistry_expand two_cycle ''a'' True 10 frames = Inr ''a'') \<and>
   (3 \<le> frames \<longrightarrow> AliasRegistry_expand abcd_aliases ''a x'' True 2 frames = Inr ''c x'')"
proof (intro conjI impI ballI allI)
  show "\<exists>s. AliasRegistry_expand al command recursive max_depth frames = Inr s"
    if "nat max_depth < frames \<or> (finite (dom al) \<and> card (dom al) < frames)"
    using that by (rule expand_Inr)
  show "AliasRegistry_expand_recursive al command seen depth max_depth frames = Inr command"
    if "0 < frames \<and> max_depth \<le> depth"
    using that by (simp add: expand_recursive_depth_cap)
  show "AliasRegistry_expand_recursive al command seen depth max_depth frames = Inr command"
    if "0 < frames" "cmd \<in> seen" "split_ws1 command = cmd # rs" for cmd rs
    using that(1,3,2) by (rule expand_recursive_cycle)
  show "AliasRegistry_expand_recursive al' c' seen' d' md' f' =
          (case AliasRegistry_expand_recursive al' expansion (insert cmd' seen') (d' + 1) md'
                  (f' - 1) of
             Inl e \<Rightarrow> Inl e
           | Inr x \<Rightarrow> Inr (x @ (if concat rs' \<noteq> [] then '' '' @ concat rs' else [])))"
    if "0 < f' \<and> d' < md' \<and> split_ws1 c' = cmd' # rs' \<and> al' cmd' = Some expansion \<and> cmd' \<notin> seen'"
    using that by (intro expand_recursive_step) simp_all
  show "AliasRegistry_expand two_cycle ''a'' True 10 frames = Inr ''a''" if "3 \<le> frames"
    using that by (rule expand_two_cycle)
  show "AliasRegistry_expand abcd_aliases ''a x'' True 2 frames = Inr ''c x''" if "3 \<le> frames"
    using that by (rule expand_depth_cap_abcd)
qed

theorem expand_terminates_within_stack_witness:
  "nat 1 < (5::nat) \<and>
   (\<exists>s. AliasRegistry_expand two_cycle ''a b'' True 1 5 = Inr s) \<and>
   (0::nat) < 5 \<and> (1::int) \<le> 1 \<and>
   AliasRegistry_expand_recursive two_cycle ''a b'' {''a''} 1 1 5 = Inr ''a b'' \<and>
   ''a'' \<in> {''a''} \<and> split_ws1 ''a b'' = ''a'' # [''b''] \<and>
   (0::int) < 10 \<and> two_cycle ''a'' = Some ''b'' \<and> ''a'' \<notin> ({} :: string set) \<and>
   AliasRegistry_expand_recursive two_cycle ''a b'' {} 0 10 5 =
     (case AliasRegistry_expand_recursive two_cycle ''b'' (insert ''a'' {}) (0 + 1) 10 (5 - 1) of
        Inl e \<Rightarrow> Inl e
      | Inr x \<Rightarrow> Inr (x @ '' b'')) \<and>
   (3::nat) \<le> 5 \<and>
   AliasRegistry_expand two_cycle ''a'' True 10 5 = Inr ''a'' \<and>
   AliasRegistry_expand abcd_aliases ''a x'' True 2 5 = Inr ''c x''"
proof -
  have sp: "split_ws1 ''a b'' = ''a'' # [''b'']" by (simp add: split_ws1_def)
  have al: "two_cycle ''a'' = Some ''b''"
    by (simp add: two_cycle_def AliasRegistry_define_def)
  from expand_terminates_within_stack [where max_depth = 1 and frames = 5 and al = two_cycle
      and command = "''a b''" and recursive = True and depth = 1 and seen = "{''a''}"
      and f' = 5 and d' = 0 and md' = 10 and c' = "''a b''" and cmd' = "''a''"
      and rs' = "[''b'']" and al' = two_cycle and expansion = "''b''" and seen' = "{}"]
  show ?thesis using sp al by (simp split: sum.splits)
qed


section \<open>AliasRegistry: nested aliases\<close>

text \<open>
  C1.  After \<open>define("l", "ls")\<close> and \<open>define("ll", "l -l")\<close>, \<open>expand("ll /tmp")\<close> with the
  default arguments (\<open>recursive=True\<close>, \<open>max_depth=10\<close>) returns exactly \<open>"ls -l /tmp"\<close>;
  the three nested calls need three free frames.
\<close>

theorem expand_nested_alias:
  "3 \<le> frames \<Longrightarrow>
   AliasRegistry_expand
     (AliasRegistry_define (AliasRegistry_define AliasRegistry_init ''l'' ''ls'') ''ll'' ''l -l'')
     ''ll /tmp'' True 10 frames
     = Inr ''ls -l /tmp''"
proof -
  assume "3 \<le> frames"
  then obtain k where "frames = Suc (Suc (Suc k))" using three_frames by blast
  then show ?thesis
    by (simp add: AliasRegistry_expand_def strip_def split_ws1_def getitem_def contains_def
        dict_getitem_def AliasRegistry_define_def AliasRegistry_init_def
        AliasRegistry_expand_recursive.simps)
qed

theorem expand_nested_alias_witness:
  "(3::nat) \<le> 1000 \<and>
   AliasRegistry_expand
     (AliasRegistry_define (AliasRegistry_define AliasRegistry_init ''l'' ''ls'') ''ll'' ''l -l'')
     ''ll /tmp'' True 10 1000
     = Inr ''ls -l /tmp''"
  using expand_nested_alias [of 1000] by simp

section \<open>AliasRegistry: what expansion leaves alone\<close>

lemma nested_ll: "3 \<le> f \<Longrightarrow> AliasRegistry_expand nested_aliases ''ll'' True 10 f = Inr ''ls -l''"
proof -
  assume "3 \<le> f"
  then obtain k where "f = Suc (Suc (Suc k))" using three_frames by blast
  then show ?thesis
    by (simp add: nested_aliases_def AliasRegistry_expand_def strip_def split_ws1_def getitem_def
        contains_def dict_getitem_def AliasRegistry_define_def AliasRegistry_init_def
        AliasRegistry_expand_recursive.simps)
qed

text \<open>
  C5.  That \<open>expand\<close> keeps everything but the first word verbatim fails: with \<open>ll\<close>
  standing for \<open>ls -l\<close>, the three blanks of \<open>"ll   /tmp"\<close> come back as one, the
  leading blank of \<open>" ll /tmp"\<close> is dropped, and so are the trailing blanks of \<open>"ll   "\<close>.
\<close>

theorem expand_whitespace_counterexample:
  "AliasRegistry_expand nested_aliases ''ll'' True 10 1000 = Inr ''ls -l'' \<and>
   AliasRegistry_expand nested_aliases ''ll   /tmp'' True 10 1000 = Inr ''ls -l /tmp'' \<and>
   ''ls -l /tmp'' \<noteq> ''ls -l'' @ ''   /tmp'' \<and>
   AliasRegistry_expand nested_aliases '' ll /tmp'' True 10 1000 = Inr ''ls -l /tmp'' \<and>
   ''ls -l /tmp'' \<noteq> '' '' @ ''ls -l'' @ '' /tmp'' \<and>
   AliasRegistry_expand nested_aliases ''ll   '' True 10 1000 = Inr ''ls -l'' \<and>
   ''ls -l'' \<noteq> ''ls -l'' @ ''   ''"
proof -
  have k: "(1000::nat) = Suc (Suc (Suc 997))" by simp
  have a: "AliasRegistry_expand nested_aliases ''ll'' True 10 1000 = Inr ''ls -l''"
    by (rule nested_ll) simp
  have b: "AliasRegistry_expand nested_aliases ''ll   /tmp'' True 10 1000 = Inr ''ls -l /tmp''"
    unfolding k
    by (simp add: nested_aliases_def AliasRegistry_expand_def strip_def split_ws1_def getitem_def
        contains_def dict_getitem_def AliasRegistry_define_def AliasRegistry_init_def
        AliasRegistry_expand_recursive.simps)
  have c: "AliasRegistry_expand nested_aliases '' ll /tmp'' True 10 1000 = Inr ''ls -l /tmp''"
    unfolding k
    by (simp add: nested_aliases_def AliasRegistry_expand_def strip_def split_ws1_def getitem_def
        contains_def dict_getitem_def AliasRegistry_define_def AliasRegistry_init_def
        AliasRegistry_expand_recursive.simps)
  have d: "AliasRegistry_expand nested_aliases ''ll   '' True 10 1000 = Inr ''ls -l''"
    unfolding k
    by (simp add: nested_aliases_def AliasRegistry_expand_def strip_def split_ws1_def getitem_def
        contains_def dict_getitem_def AliasRegistry_define_def AliasRegistry_init_def
        AliasRegistry_expand_recursive.simps)
  from a b c d show ?thesis by simp
qed

text \<open>
  C5, as the code has it.  A command without a word is returned as it is.  Otherwise the
  command is leading whitespace, the first word \<open>cmd\<close>, a run of whitespace and the rest
  (\<open>concat rs\<close>, which does not start with whitespace; empty when nothing follows).  When
  \<open>cmd\<close> is an alias that gets expanded, the result is the expansion of the word \<open>cmd\<close>
  alone, then one blank and the rest, unchanged (nothing is appended when there is no
  rest); an error of the expansion is passed on.  In every other case the whole command is
  returned unchanged.
\<close>

theorem expand_rewrites_first_word:
  "(split_ws1 command = [] \<longrightarrow>
      AliasRegistry_expand al command recursive max_depth frames = Inr command) \<and>
   (\<forall>cmd rs. split_ws1 command = cmd # rs \<longrightarrow>
      (\<exists>lead sep. command = lead @ cmd @ sep @ concat rs \<and>
         (\<forall>c \<in> set lead. isspace c) \<and> (\<forall>c \<in> set sep. isspace c) \<and>
         (concat rs \<noteq> [] \<longrightarrow> sep \<noteq> [] \<and> \<not> isspace (hd (concat rs)))) \<and>
      cmd \<noteq> [] \<and> (\<forall>c \<in> set cmd. \<not> isspace c) \<and>
      AliasRegistry_expand al command recursive max_depth frames =
        (if contains al cmd \<and> (recursive \<and> 0 < frames \<longrightarrow> 0 < max_depth)
         then (case AliasRegistry_expand al cmd recursive max_depth frames of
                 Inl e \<Rightarrow> Inl e
               | Inr e \<Rightarrow> Inr (e @ (if concat rs \<noteq> [] then '' '' @ concat rs else [])))
         else Inr command))"
proof (intro conjI allI impI)
  assume "split_ws1 command = []"
  then show "AliasRegistry_expand al command recursive max_depth frames = Inr command"
    by (simp add: expand_unfold)
next
  fix cmd rs assume sp: "split_ws1 command = cmd # rs"
  from split_ws1_shape [OF sp]
  show "\<exists>lead sep. command = lead @ cmd @ sep @ concat rs \<and>
         (\<forall>c \<in> set lead. isspace c) \<and> (\<forall>c \<in> set sep. isspace c) \<and>
         (concat rs \<noteq> [] \<longrightarrow> sep \<noteq> [] \<and> \<not> isspace (hd (concat rs)))"
    and cn: "cmd \<noteq> []" and cw: "\<forall>c \<in> set cmd. \<not> isspace c"
    by blast+
  from split_ws1_word [OF cn cw] have sc: "split_ws1 cmd = cmd # []" by simp
  let ?sp = "if concat rs \<noteq> [] then '' '' @ concat rs else []"
  show "AliasRegistry_expand al command recursive max_depth frames =
        (if contains al cmd \<and> (recursive \<and> 0 < frames \<longrightarrow> 0 < max_depth)
         then (case AliasRegistry_expand al cmd recursive max_depth frames of
                 Inl e \<Rightarrow> Inl e
               | Inr e \<Rightarrow> Inr (e @ ?sp))
         else Inr command)"
  proof (cases "al cmd")
    case None
    with sp show ?thesis by (simp add: expand_unfold contains_def)
  next
    case (Some expansion)
    show ?thesis
    proof (cases recursive)
      case False
      with Some sp sc show ?thesis by (simp add: expand_unfold contains_def)
    next
      case True
      show ?thesis
      proof (cases "frames = 0")
        case f0: True
        have "AliasRegistry_expand_recursive al c {} 0 max_depth 0 = Inl RecursionError" for c
          by (subst expand_recursive_unfold) simp
        with f0 True Some sp sc show ?thesis by (simp add: expand_unfold contains_def)
      next
        case fpos: False
        show ?thesis
        proof (cases "0 < max_depth")
          case False
          with True Some sp fpos show ?thesis
            by (simp add: expand_unfold contains_def expand_recursive_depth_cap)
        next
          case pos: True
          from fpos have f: "0 < frames" by simp
          have ns: "cmd \<notin> {}" by simp
          note st1 = expand_recursive_step [where al = al and cmd = cmd, OF f pos sc Some ns]
          note st2 = expand_recursive_step [where al = al and cmd = cmd, OF f pos sp Some ns]
          from True Some sp sc pos show ?thesis
            by (simp add: expand_unfold contains_def st1 st2 split: sum.splits)
        qed
      qed
    qed
  qed
qed

theorem expand_rewrites_first_word_witness:
  "split_ws1 ''ll   /tmp  x'' = ''ll'' # [''/tmp  x''] \<and> contains nested_aliases ''ll'' \<and>
   (0::int) < 10 \<and>
   AliasRegistry_expand nested_aliases ''ll   /tmp  x'' True 10 1000 =
     (case AliasRegistry_expand nested_aliases ''ll'' True 10 1000 of
        Inl e \<Rightarrow> Inl e
      | Inr e \<Rightarrow> Inr (e @ '' /tmp  x'')) \<and>
   AliasRegistry_expand nested_aliases ''ll   /tmp  x'' True 10 1000 = Inr ''ls -l /tmp  x''"
proof -
  have sp: "split_ws1 ''ll   /tmp  x'' = ''ll'' # [''/tmp  x'']"
    by (simp add: split_ws1_def isspace_def)
  have al: "contains nested_aliases ''ll''"
    by (simp add: nested_aliases_def AliasRegistry_define_def contains_def)
  have ll: "AliasRegistry_expand nested_aliases ''ll'' True 10 1000 = Inr ''ls -l''"
    by (rule nested_ll) simp
  from expand_rewrites_first_word [of "''ll   /tmp  x''" nested_aliases True 10 1000] sp al ll
  show ?thesis by simp
qed

section \<open>VariableManager and CommandContext: scopes\<close>

lemma lookup_scopes_None: "(\<forall>sc \<in> set scs. \<not> contains sc n) \<Longrightarrow> lookup_scopes scs n = None"
  by (induction scs) auto

lemma local_key_neq: "''_local_'' @ x \<noteq> x"
proof
  assume "''_local_'' @ x = x"
  then have "length (''_local_'' @ x) = length x" by simp
  then show False by simp
qed

lemma drop_local_key: "startswith x ''_local_'' \<Longrightarrow> drop 7 x \<noteq> x"
proof
  assume a: "startswith x ''_local_''" and b: "drop 7 x = x"
  from a have "length ''_local_'' \<le> length x"
    unfolding startswith_def by (metis length_take min.cobounded1)
  then have "7 \<le> length x" by simp
  moreover from b have "length (drop 7 x) = length x" by simp
  ultimately show False by simp
qed

lemma startswith_local_key: "startswith (''_local_'' @ x) ''_local_''"
  by (simp add: startswith_def)

text \<open>
  C3.  When \<open>x\<close> has the global value \<open>v\<close> (it is bound in \<open>env\<close> and no local scope on
  the stack binds it), then after \<open>push_scope()\<close> and \<open>set(x, w, local=True)\<close> the call
  \<open>get(x)\<close> returns \<open>w\<close>, and after the following \<open>pop_scope()\<close> it returns \<open>v\<close>
  again; none of the calls raises, and the stack of scopes is as before.
\<close>

theorem scope_restores_global:
  assumes "vm_env vm x = Some v" and "\<forall>sc \<in> set (vm_local_scopes vm). \<not> contains sc x"
  shows "\<exists>vm1 sc vm2.
           VariableManager_set (push_scope vm) x w True = Inr vm1 \<and>
           VariableManager_get vm1 x None = Inr w \<and>
           pop_scope vm1 = (Inr sc, vm2) \<and>
           VariableManager_get vm2 x None = Inr v \<and>
           vm_local_scopes vm2 = vm_local_scopes vm"
proof -
  define env1 where "env1 = (vm_env vm)(''_local_'' @ x \<mapsto> w)"
  define vm1 where "vm1 = vm\<lparr>vm_local_scopes := vm_local_scopes vm @ [[x \<mapsto> w]],
                          vm_env := env1\<rparr>"
  define env2 where "env2 = (\<lambda>key. if startswith key ''_local_'' \<and> contains [x \<mapsto> w] (drop 7 key)
                                then None else env1 key)"
  define vm2 where "vm2 = vm1\<lparr>vm_local_scopes := vm_local_scopes vm, vm_env := env2\<rparr>"
  have s: "VariableManager_set (push_scope vm) x w True = Inr vm1"
    by (simp add: VariableManager_set_def push_scope_def vm1_def env1_def Let_def)
  have g1: "VariableManager_get vm1 x None = Inr w"
    by (simp add: VariableManager_get_def vm1_def env1_def Let_def contains_def dict_getitem_def)
  have ev: "vm_env vm1 = env1" by (simp add: vm1_def)
  have sv: "rev (vm_local_scopes vm1) = [x \<mapsto> w] # rev (vm_local_scopes vm)"
    by (simp add: vm1_def)
  have p: "pop_scope vm1 = (Inr [x \<mapsto> w], vm2)"
    unfolding pop_scope_def sv ev by (simp add: vm2_def env2_def)
  have e2x: "env2 x = Some v"
    using assms(1) local_key_neq [of x] drop_local_key [of x]
    by (auto simp: env2_def env1_def contains_def)
  have e2l: "env2 (''_local_'' @ x) = None"
    using startswith_local_key [of x] by (simp add: env2_def contains_def)
  have g2: "VariableManager_get vm2 x None = Inr v"
    using lookup_scopes_None [of "rev (vm_local_scopes vm)" x] assms(2) e2x e2l
    by (simp add: VariableManager_get_def vm2_def Let_def contains_def)
  have "vm_local_scopes vm2 = vm_local_scopes vm" by (simp add: vm2_def)
  with s g1 p g2 show ?thesis by blast
qed

theorem scope_restores_global_witness:
  "vm_env shadow_vm ''x'' = Some ''global'' \<and> \<not> contains [''y'' \<mapsto> ''1''] ''x'' \<and>
   (\<exists>vm1 sc vm2.
      VariableManager_set (push_scope shadow_vm) ''x'' ''local'' True = Inr vm1 \<and>
      VariableManager_get vm1 ''x'' None = Inr ''local'' \<and>
      pop_scope vm1 = (Inr sc, vm2) \<and>
      VariableManager_get vm2 ''x'' None = Inr ''global'' \<and>
      vm_local_scopes vm2 = vm_local_scopes shadow_vm)"
proof -
  have a: "vm_env shadow_vm ''x'' = Some ''global''" by (simp add: shadow_vm_def)
  have b: "\<forall>sc \<in> set (vm_local_scopes shadow_vm). \<not> contains sc ''x''"
    by (simp add: shadow_vm_def contains_def)
  have c: "\<not> contains [''y'' \<mapsto> ''1''] ''x''" by (simp add: contains_def)
  from scope_restores_global [OF a b, of "''local''"] a c show ?thesis by blast
qed

text \<open>
  C4.  On an empty stack of scopes \<open>VariableManager.pop_scope\<close> raises \<open>IndexError\<close> and
  leaves the manager as it was, while \<open>CommandContext.pop_local_scope\<close> raises nothing and
  leaves the context as it was.
\<close>

theorem pop_on_empty_stack:
  "(vm_local_scopes vm = [] \<longrightarrow> pop_scope vm = (Inl IndexError, vm)) \<and>
   (cc_local_scopes ctx = [] \<longrightarrow> pop_local_scope ctx = Inr ctx)"
  by (simp add: pop_scope_def pop_local_scope_def)

theorem pop_on_empty_stack_witness:
  "vm_local_scopes (VariableManager_init ''/root'' None) = [] \<and>
   pop_scope (VariableManager_init ''/root'' None) =
     (Inl IndexError, VariableManager_init ''/root'' None) \<and>
   cc_local_scopes (CommandContext_init Map.empty) = [] \<and>
   pop_local_scope (CommandContext_init Map.empty) = Inr (CommandContext_init Map.empty)"
proof -
  have a: "vm_local_scopes (VariableManager_init ''/root'' None) = []"
    by (simp add: VariableManager_init_def Let_def)
  have b: "cc_local_scopes (CommandContext_init Map.empty) = []"
    by (simp add: CommandContext_init_def)
  from pop_on_empty_stack [of "VariableManager_init ''/root'' None" "CommandContext_init Map.empty"]
    a b show ?thesis by simp
qed

section \<open>VariableManager and CommandContext: local without a scope\<close>

text \<open>
  C9.  With an empty stack of scopes and no true \<open>_function_depth\<close> entry,
  \<open>set(x, v, local=True)\<close> writes \<open>x\<close> into the global \<open>env\<close> and raises nothing, and
  \<open>CommandContext.set_variable\<close> with an empty \<open>local_scopes\<close> does the same.  That a
  following \<open>get(x)\<close> returns \<open>v\<close> fails for one input: when \<open>x\<close> is \<open>_function_depth\<close>
  itself, \<open>v\<close> is not empty and \<open>env\<close> binds \<open>_local__function_depth\<close>, the write turns
  the function-depth test of \<open>get\<close> on and \<open>get\<close> returns the \<open>_local_\<close> entry.
\<close>

theorem set_local_fallback_counterexample:
  "vm_local_scopes depth_vm = [] \<and> \<not> truthy (vm_env depth_vm ''_function_depth'') \<and>
   VariableManager_set depth_vm ''_function_depth'' ''1'' True =
     Inr (depth_vm\<lparr>vm_env := (vm_env depth_vm)(''_function_depth'' \<mapsto> ''1'')\<rparr>) \<and>
   VariableManager_get (depth_vm\<lparr>vm_env := (vm_env depth_vm)(''_function_depth'' \<mapsto> ''1'')\<rparr>)
     ''_function_depth'' None = Inr ''zzz''"
  by (simp add: depth_vm_def VariableManager_set_def VariableManager_get_def truthy_def
      contains_def dict_getitem_def Let_def)

text \<open>
  C9, as the code has it: the write always goes to \<open>env\<close>; \<open>get(x)\<close> then returns \<open>v\<close>
  unless \<open>x\<close> is \<open>_function_depth\<close>, \<open>v\<close> is not empty and \<open>env\<close> binds
  \<open>_local__function_depth\<close>.  For a \<open>CommandContext\<close> with no local scope
  \<open>get_variable(x)\<close> returns \<open>v\<close> always.
\<close>

theorem set_local_fallback:
  "(vm_local_scopes vm = [] \<and> \<not> truthy (vm_env vm ''_function_depth'') \<longrightarrow>
      VariableManager_set vm x v True = Inr (vm\<lparr>vm_env := (vm_env vm)(x \<mapsto> v)\<rparr>) \<and>
      (\<not> (x = ''_function_depth'' \<and> v \<noteq> [] \<and> contains (vm_env vm) ''_local__function_depth'')
         \<longrightarrow> VariableManager_get (vm\<lparr>vm_env := (vm_env vm)(x \<mapsto> v)\<rparr>) x None = Inr v)) \<and>
   (cc_local_scopes ctx = [] \<longrightarrow>
      set_variable ctx x v True = Inr (ctx\<lparr>cc_env := (cc_env ctx)(x \<mapsto> v)\<rparr>) \<and>
      get_variable (ctx\<lparr>cc_env := (cc_env ctx)(x \<mapsto> v)\<rparr>) x = Inr (Some v))"
proof (intro conjI impI)
  assume a: "vm_local_scopes vm = [] \<and> \<not> truthy (vm_env vm ''_function_depth'')"
  then show "VariableManager_set vm x v True = Inr (vm\<lparr>vm_env := (vm_env vm)(x \<mapsto> v)\<rparr>)"
    by (simp add: VariableManager_set_def Let_def)
  assume b: "\<not> (x = ''_function_depth'' \<and> v \<noteq> [] \<and>
                 contains (vm_env vm) ''_local__function_depth'')"
  show "VariableManager_get (vm\<lparr>vm_env := (vm_env vm)(x \<mapsto> v)\<rparr>) x None = Inr v"
  proof (cases "x = ''_function_depth''")
    case True
    with a b show ?thesis
      by (auto simp: VariableManager_get_def Let_def truthy_def contains_def)
  next
    case False
    with a show ?thesis
      by (simp add: VariableManager_get_def Let_def)
  qed
next
  assume "cc_local_scopes ctx = []"
  then show "set_variable ctx x v True = Inr (ctx\<lparr>cc_env := (cc_env ctx)(x \<mapsto> v)\<rparr>)"
    by (simp add: set_variable_def)
next
  assume "cc_local_scopes ctx = []"
  then show "get_variable (ctx\<lparr>cc_env := (cc_env ctx)(x \<mapsto> v)\<rparr>) x = Inr (Some v)"
    by (simp add: get_variable_def)
qed

theorem set_local_fallback_witness:
  "vm_local_scopes depth_vm = [] \<and> \<not> truthy (vm_env depth_vm ''_function_depth'') \<and>
   VariableManager_set depth_vm ''x'' ''1'' True =
     Inr (depth_vm\<lparr>vm_env := (vm_env depth_vm)(''x'' \<mapsto> ''1'')\<rparr>) \<and>
   VariableManager_get (depth_vm\<lparr>vm_env := (vm_env depth_vm)(''x'' \<mapsto> ''1'')\<rparr>) ''x'' None
     = Inr ''1'' \<and>
   cc_local_scopes (CommandContext_init Map.empty) = [] \<and>
   get_variable ((CommandContext_init Map.empty)
       \<lparr>cc_env := (cc_env (CommandContext_init Map.empty))(''x'' \<mapsto> ''1'')\<rparr>) ''x''
     = Inr (Some ''1'')"
proof -
  have a: "vm_local_scopes depth_vm = []" by (simp add: depth_vm_def)
  have b: "\<not> truthy (vm_env depth_vm ''_function_depth'')"
    by (simp add: depth_vm_def truthy_def)
  have c: "cc_local_scopes (CommandContext_init Map.empty) = []"
    by (simp add: CommandContext_init_def)
  from set_local_fallback [of depth_vm "''x''" "''1''" "CommandContext_init Map.empty"] a b c
  show ?thesis by simp
qed

section \<open>VariableManager: the exit code entry\<close>

lemma digit_cases:
  assumes "d < (10::nat)"
  shows "d = 0 \<or> d = 1 \<or> d = 2 \<or> d = 3 \<or> d = 4 \<or> d = 5 \<or> d = 6 \<or> d = 7 \<or> d = 8 \<or> d = 9"
  using assms by arith

lemma digit_char_props:
  assumes "d < 10"
  shows "is_digit (digit_char d)" and "digit_value (digit_char d) = d"
    and "\<not> c_isspace (digit_char d)" and "digit_char d \<noteq> CHR ''-''" and "digit_char d \<noteq> CHR ''+''"
    and "digit_char d \<noteq> CHR ''_''" and "to_ascii (digit_char d) = digit_char d"
  using digit_cases [OF assms]
  by (auto simp: digit_char_def is_digit_def digit_value_def c_isspace_def to_ascii_def)

lemma str_nat_digits: "all_digits (str_nat n) \<and> str_nat n \<noteq> []"
proof (induction n rule: str_nat.induct)
  case (1 n)
  show ?case
  proof (cases "n < 10")
    case True
    then show ?thesis by (subst (1 2) str_nat.simps) (auto simp: all_digits_def)
  next
    case False
    have "\<exists>d<10. digit_char (n mod 10) = digit_char d"
      by (rule exI [of _ "n mod 10"]) simp
    with False 1 show ?thesis
      by (subst (1 2) str_nat.simps) (auto simp: all_digits_def)
  qed
qed

lemma digits_value_snoc: "digits_value (ds @ [c]) = 10 * digits_value ds + digit_value c"
  by (simp add: digits_value_def)

lemma digits_value_str_nat: "digits_value (str_nat n) = n"
proof (induction n rule: str_nat.induct)
  case (1 n)
  show ?case
  proof (cases "n < 10")
    case True
    then show ?thesis
      by (subst str_nat.simps) (simp add: digits_value_def digit_char_props)
  next
    case False
    have "n mod 10 < 10" by simp
    with False 1 show ?thesis
      by (subst str_nat.simps) (simp add: digits_value_snoc digit_char_props)
  qed
qed

lemma valid_int_body_digits: "all_digits ds \<Longrightarrow> ds \<noteq> [] \<Longrightarrow> valid_int_body ds"
proof (induction ds rule: valid_int_body.induct)
  case 1
  then show ?case by simp
next
  case (2 c)
  then show ?case by (auto simp: all_digits_def digit_char_props)
next
  case (3 c d cs)
  from 3(3) have dd: "d \<noteq> CHR ''_''" and cd: "is_digit c" and rest: "all_digits (d # cs)"
    by (auto simp: all_digits_def digit_char_props)
  with 3 show ?case by simp
qed

lemma filter_digits: "all_digits ds \<Longrightarrow> filter (\<lambda>c. c \<noteq> CHR ''_'') ds = ds"
  by (induction ds) (auto simp: all_digits_def digit_char_props)

lemma c_strip_no_space:
  "\<forall>c \<in> set s. \<not> c_isspace c \<Longrightarrow> rev (dropWhile c_isspace (rev (dropWhile c_isspace s))) = s"
proof -
  assume a: "\<forall>c \<in> set s. \<not> c_isspace c"
  then have "dropWhile c_isspace s = s" by (cases s) auto
  moreover from a have "dropWhile c_isspace (rev s) = rev s" by (cases "rev s") auto
  ultimately show ?thesis by simp
qed

lemma all_digits_no_space: "all_digits s \<Longrightarrow> \<forall>c \<in> set s. \<not> c_isspace c"
  by (auto simp: all_digits_def digit_char_props)

lemma all_digits_ascii: "all_digits s \<Longrightarrow> map to_ascii s = s"
  by (induction s) (auto simp: all_digits_def digit_char_props)

lemma py_int_str_nat: "py_int (str_nat n) = Inr (int n)"
proof -
  have d: "all_digits (str_nat n)" and ne: "str_nat n \<noteq> []"
    using str_nat_digits by auto
  have st: "rev (dropWhile c_isspace (rev (dropWhile c_isspace (map to_ascii (str_nat n)))))
              = str_nat n"
    unfolding all_digits_ascii [OF d] by (rule c_strip_no_space [OF all_digits_no_space [OF d]])
  from d ne have h: "hd (str_nat n) \<noteq> CHR ''-''" "hd (str_nat n) \<noteq> CHR ''+''"
    by (cases "str_nat n"; auto simp: all_digits_def digit_char_props)+
  show ?thesis
    unfolding py_int_def st Let_def
    using h ne valid_int_body_digits [OF d ne]
    by (simp add: filter_digits [OF d] digits_value_str_nat)
qed

lemma py_int_neg_str_nat: "py_int (CHR ''-'' # str_nat n) = Inr (- int n)"
proof -
  have d: "all_digits (str_nat n)" and ne: "str_nat n \<noteq> []"
    using str_nat_digits by auto
  have m: "map to_ascii (CHR ''-'' # str_nat n) = CHR ''-'' # str_nat n"
    using all_digits_ascii [OF d] by (simp add: to_ascii_def)
  have "\<forall>c \<in> set (CHR ''-'' # str_nat n). \<not> c_isspace c"
    using all_digits_no_space [OF d] by (simp add: c_isspace_def)
  then have st: "rev (dropWhile c_isspace (rev (dropWhile c_isspace
                   (map to_ascii (CHR ''-'' # str_nat n))))) = CHR ''-'' # str_nat n"
    unfolding m by (rule c_strip_no_space)
  show ?thesis
    unfolding py_int_def st Let_def
    using valid_int_body_digits [OF d ne]
    by (simp add: filter_digits [OF d] digits_value_str_nat)
qed

lemma py_int_py_str: "py_int (py_str i) = Inr i"
  by (simp add: py_str_def py_int_str_nat py_int_neg_str_nat)

text \<open>
  C6.  Right after construction, for every \<open>initial_env\<close> (one that binds \<open>?\<close> included),
  the entry \<open>?\<close> holds \<open>"0"\<close>.  After \<open>set_exit_code(code)\<close> it holds \<open>str(code)\<close>, which
  \<open>int\<close> reads back as \<open>code\<close>, so \<open>get_exit_code()\<close> returns \<open>code\<close>.
\<close>

theorem exit_code_entry:
  "vm_env (VariableManager_init home initial_env) ''?'' = Some ''0'' \<and>
   get_exit_code (VariableManager_init home initial_env) = 0 \<and>
   vm_env (set_exit_code vm code) ''?'' = Some (py_str code) \<and>
   py_int (py_str code) = Inr code \<and>
   get_exit_code (set_exit_code vm code) = code"
proof -
  have a: "vm_env (VariableManager_init home initial_env) ''?'' = Some ''0''"
    by (simp add: VariableManager_init_def Let_def)
  have z: "py_int ''0'' = Inr 0" using py_int_py_str [of 0]
    by (simp add: py_str_def str_nat.simps digit_char_def)
  have b: "get_exit_code (VariableManager_init home initial_env) = 0"
    by (simp add: get_exit_code_def a z)
  have c: "vm_env (set_exit_code vm code) ''?'' = Some (py_str code)"
    by (simp add: set_exit_code_def)
  have d: "get_exit_code (set_exit_code vm code) = code"
    by (simp add: get_exit_code_def c py_int_py_str)
  from a b c d py_int_py_str show ?thesis by simp
qed

theorem exit_code_entry_witness:
  "vm_env (VariableManager_init ''/root'' (Some [''?'' \<mapsto> ''7''])) ''?'' = Some ''0'' \<and>
   get_exit_code (VariableManager_init ''/root'' (Some [''?'' \<mapsto> ''7''])) = 0 \<and>
   vm_env (set_exit_code shadow_vm (- 42)) ''?'' = Some ''-42'' \<and>
   get_exit_code (set_exit_code shadow_vm (- 42)) = - 42"
proof -
  have s4: "str_nat 4 = ''4''" by (subst str_nat.simps) (simp add: digit_char_def)
  have "str_nat 42 = ''42''" by (subst str_nat.simps) (simp add: s4 digit_char_def)
  then have "py_str (- 42) = ''-42''" by (simp add: py_str_def)
  with exit_code_entry [of "''/root''" "Some [''?'' \<mapsto> ''7'']" shadow_vm "- 42"]
  show ?thesis by simp
qed


section \<open>CommandContext: expanding variables\<close>

lemma lookup_scopes_Inr:
  "lookup_scopes scs n = Some r \<Longrightarrow> \<exists>v. r = Inr v"
  by (induction scs) (auto simp: contains_def dict_getitem_def split: if_splits)

lemma lookup_scopes_unbound: "(\<forall>sc \<in> set scs. \<not> contains sc n) \<Longrightarrow> lookup_scopes scs n = None"
  by (induction scs) auto

lemma replace_var_Inr: "\<exists>v. replace_var ctx n = Inr v"
proof (cases "lookup_scopes (rev (cc_local_scopes ctx)) n")
  case None
  then show ?thesis by (simp add: replace_var_def get_variable_def)
next
  case (Some r)
  with lookup_scopes_Inr [OF Some] show ?thesis
    by (auto simp: replace_var_def get_variable_def)
qed

lemma replace_var_unbound:
  "cc_env ctx n = None \<Longrightarrow> \<forall>sc \<in> set (cc_local_scopes ctx). \<not> contains sc n \<Longrightarrow>
   replace_var ctx n = Inr []"
  using lookup_scopes_unbound [of "rev (cc_local_scopes ctx)" n]
  by (simp add: replace_var_def get_variable_def truthy_def)

lemma sub_braced_Inr: "(\<And>n. \<exists>v. repl n = Inr v) \<Longrightarrow> \<exists>s. sub_braced repl t = Inr s"
proof (induction repl t rule: sub_braced.induct)
  case (1 repl)
  then show ?case by simp
next
  case (2 repl c cs)
  let ?m = "c = CHR ''$'' \<and> startswith cs ''{'' \<and> tl cs \<noteq> [] \<and> ident_start (hd (tl cs)) \<and>
         startswith (dropWhile ident_char (tl cs)) ''}''"
  show ?case
  proof (cases ?m)
    case True
    obtain v where v: "repl (takeWhile ident_char (tl cs)) = Inr v" using 2(3) by blast
    from 2(1) [OF True v 2(3)] obtain r where
      "sub_braced repl (tl (dropWhile ident_char (tl cs))) = Inr r" by blast
    with True v show ?thesis by simp
  next
    case False
    from 2(2) [OF False 2(3)] obtain r where "sub_braced repl cs = Inr r" by blast
    with False show ?thesis by auto
  qed
qed

lemma sub_simple_Inr: "(\<And>n. \<exists>v. repl n = Inr v) \<Longrightarrow> \<exists>s. sub_simple repl t = Inr s"
proof (induction repl t rule: sub_simple.induct)
  case (1 repl)
  then show ?case by simp
next
  case (2 repl c cs)
  let ?m = "c = CHR ''$'' \<and> cs \<noteq> [] \<and> ident_start (hd cs)"
  show ?case
  proof (cases ?m)
    case True
    obtain v where v: "repl (takeWhile ident_char cs) = Inr v" using 2(3) by blast
    from 2(1) [OF True v 2(3)] obtain r where
      "sub_simple repl (dropWhile ident_char cs) = Inr r" by blast
    with True v show ?thesis by simp
  next
    case False
    from 2(2) [OF False 2(3)] obtain r where "sub_simple repl cs = Inr r" by blast
    with False show ?thesis by auto
  qed
qed

lemma expand_variables_Inr: "cc_shell ctx = None \<Longrightarrow> \<exists>s. expand_variables ctx t = Inr s"
proof -
  assume sh: "cc_shell ctx = None"
  have r: "\<exists>v. replace_var ctx n = Inr v" for n by (rule replace_var_Inr)
  obtain t1 where t1: "sub_braced (replace_var ctx) t = Inr t1"
    using sub_braced_Inr [of "replace_var ctx" t] r by blast
  obtain t2 where "sub_simple (replace_var ctx) t1 = Inr t2"
    using sub_simple_Inr [of "replace_var ctx" t1] r by blast
  with sh t1 show ?thesis by (simp add: expand_variables_def)
qed

lemma dollar_props:
  "\<not> ident_char CHR ''$''" "\<not> ident_start CHR ''$''" "\<not> ident_start CHR ''{''"
  by (simp_all add: ident_char_def ident_start_def)

lemma ident_neq:
  "ident_char c \<Longrightarrow> c \<noteq> CHR ''$''" "ident_start c \<Longrightarrow> c \<noteq> CHR ''{''"
  using dollar_props by auto

lemma sub_braced_no_dollar: "\<forall>c \<in> set t. c \<noteq> CHR ''$'' \<Longrightarrow> sub_braced repl t = Inr t"
  by (induction t) auto

lemma undefined_simple:
  assumes "is_identifier name" and "replace_var ctx name = Inr []" and "cc_shell ctx = None"
  shows "expand_variables ctx (CHR ''$'' # name) = Inr []"
proof -
  from assms(1) have ne: "name \<noteq> []" and st: "ident_start (hd name)"
    and all: "\<forall>c \<in> set name. ident_char c"
    by (auto simp: is_identifier_def list_all_iff)
  from all have nd: "\<forall>c \<in> set name. c \<noteq> CHR ''$''" using ident_neq(1) by blast
  from ne st have "\<not> startswith name ''{''"
    using ident_neq(2) by (cases name) (auto simp: startswith_def)
  then have b: "sub_braced (replace_var ctx) (CHR ''$'' # name) = Inr (CHR ''$'' # name)"
    using sub_braced_no_dollar [OF nd] by simp
  from all have tw: "takeWhile ident_char name = name" and dw: "dropWhile ident_char name = []"
    by simp_all
  have s: "sub_simple (replace_var ctx) (CHR ''$'' # name) = Inr []"
    using ne st assms(2) by (simp add: tw dw)
  from assms(3) b s show ?thesis by (simp add: expand_variables_def)
qed

lemma undefined_braced:
  assumes "is_identifier name" and "replace_var ctx name = Inr []" and "cc_shell ctx = None"
  shows "expand_variables ctx (''${'' @ name @ ''}'') = Inr []"
proof -
  from assms(1) have ne: "name \<noteq> []" and st: "ident_start (hd name)"
    and all: "\<forall>c \<in> set name. ident_char c"
    by (auto simp: is_identifier_def list_all_iff)
  have cb: "\<not> ident_char CHR ''}''" by (simp add: ident_char_def ident_start_def)
  from all cb have tw: "takeWhile ident_char (name @ ''}'') = name"
    and dw: "dropWhile ident_char (name @ ''}'') = ''}''"
    by (simp_all add: takeWhile_append1 dropWhile_append3 takeWhile_tail dropWhile_append2)
  have b: "sub_braced (replace_var ctx) (''${'' @ name @ ''}'') = Inr []"
    using ne st assms(2) by (simp add: startswith_def tw dw)
  from assms(3) b show ?thesis by (simp add: expand_variables_def)
qed

lemma hello_user:
  "expand_variables (CommandContext_init [''USER'' \<mapsto> ''alice'']) ''Hello $USER'' = Inr ''Hello alice''"
  by (simp add: expand_variables_def CommandContext_init_def replace_var_def get_variable_def
      truthy_def startswith_def ident_start_def ident_char_def)



section \<open>The error classes: exit codes\<close>



section \<open>PathManager: paths under a chroot\<close>

lemma split_slash_ne: "split_slash s \<noteq> []"
  by (induction s) (auto split: list.splits)

lemma split_slash_no_slash: "\<forall>p \<in> set (split_slash s). CHR ''/'' \<notin> set p"
  by (induction s) (auto split: list.splits)

lemma split_slash_append:
  "split_slash (a @ CHR ''/'' # b) = split_slash a @ split_slash b"
proof (induction a)
  case Nil
  show ?case by simp
next
  case (Cons c a)
  obtain w ws where w: "split_slash a = w # ws"
    using split_slash_ne [of a] by (cases "split_slash a") auto
  with Cons show ?case by simp
qed

lemma split_slash_part: "CHR ''/'' \<notin> set p \<Longrightarrow> split_slash p = [p]"
  by (induction p) auto

lemma join_slash_append:
  "xs \<noteq> [] \<Longrightarrow> ys \<noteq> [] \<Longrightarrow> join_slash (xs @ ys) = join_slash xs @ CHR ''/'' # join_slash ys"
proof (induction xs rule: join_slash.induct)
  case 1
  then show ?case by simp
next
  case (2 c)
  then show ?case by (cases ys) simp_all
next
  case (3 c d cs)
  then show ?case by simp
qed

lemma split_join_slash:
  "xs \<noteq> [] \<Longrightarrow> \<forall>p \<in> set xs. CHR ''/'' \<notin> set p \<Longrightarrow> split_slash (join_slash xs) = xs"
proof (induction xs rule: join_slash.induct)
  case 1
  then show ?case by simp
next
  case (2 c)
  then show ?case by (simp add: split_slash_part)
next
  case (3 c d cs)
  have "split_slash (join_slash (c # d # cs)) = split_slash (c @ CHR ''/'' # join_slash (d # cs))"
    by simp
  also have "\<dots> = split_slash c @ split_slash (join_slash (d # cs))"
    by (rule split_slash_append)
  also have "\<dots> = [c] @ (d # cs)"
    using 3 by (simp add: split_slash_part)
  finally show ?case by simp
qed

lemma split_slash_slashes:
  "split_slash (replicate k CHR ''/'' @ s) = replicate k [] @ split_slash s"
  by (induction k) simp_all

lemma hd_join_slash: "xs \<noteq> [] \<Longrightarrow> hd xs \<noteq> [] \<Longrightarrow> hd (join_slash xs) = hd (hd xs)"
  by (induction xs rule: join_slash.induct) simp_all

lemma join_slash_Nil: "xs \<noteq> [] \<Longrightarrow> hd xs \<noteq> [] \<Longrightarrow> join_slash xs \<noteq> []"
  by (induction xs rule: join_slash.induct) simp_all

lemma join_slash_Nil_last: "xs \<noteq> [] \<Longrightarrow> last xs \<noteq> [] \<Longrightarrow> join_slash xs \<noteq> []"
  by (induction xs rule: join_slash.induct) simp_all

lemma last_join_slash: "xs \<noteq> [] \<Longrightarrow> last xs \<noteq> [] \<Longrightarrow> last (join_slash xs) = last (last xs)"
proof (induction xs rule: join_slash.induct)
  case 1
  then show ?case by simp
next
  case (2 c)
  then show ?case by simp
next
  case (3 c d cs)
  from 3(3) have l: "last (d # cs) \<noteq> []" by simp
  from join_slash_Nil_last [OF _ l] have "join_slash (d # cs) \<noteq> []" by simp
  with 3(1) l show ?case by simp
qed

lemma normpath_comps_clean_input:
  "\<forall>p \<in> set comps. p = [] \<or> clean_part p \<Longrightarrow>
   normpath_comps k comps acc = acc @ filter (\<lambda>p. p \<noteq> []) comps"
proof (induction comps arbitrary: acc)
  case Nil
  show ?case by simp
next
  case (Cons p comps)
  then have IH: "normpath_comps k comps acc' = acc' @ filter (\<lambda>p. p \<noteq> []) comps" for acc'
    by simp
  from Cons.prems have "p = [] \<or> clean_part p" by simp
  then show ?case
  proof
    assume "p = []"
    then show ?thesis by (simp add: IH)
  next
    assume "clean_part p"
    then have "p \<noteq> []" "p \<noteq> ''.''" "p \<noteq> ''..''" by (simp_all add: clean_part_def)
    then show ?thesis by (simp add: IH)
  qed
qed

lemma normpath_comps_clean_output:
  "0 < k \<Longrightarrow> \<forall>p \<in> set acc. clean_part p \<Longrightarrow> \<forall>p \<in> set comps. CHR ''/'' \<notin> set p \<Longrightarrow>
   \<forall>p \<in> set (normpath_comps k comps acc). clean_part p"
proof (induction comps arbitrary: acc)
  case Nil
  then show ?case by simp
next
  case (Cons p comps)
  from Cons.prems(3) have rest: "\<forall>p \<in> set comps. CHR ''/'' \<notin> set p" and np: "CHR ''/'' \<notin> set p"
    by simp_all
  note IH = Cons.IH [OF Cons.prems(1) _ rest]
  consider "p = [] \<or> p = ''.''" | "p \<noteq> []" "p \<noteq> ''.''" "p \<noteq> ''..''" | "p = ''..''"
    by blast
  then show ?case
  proof cases
    case 1
    then show ?thesis using IH [OF Cons.prems(2)] by auto
  next
    case 2
    with np have "clean_part p" by (simp add: clean_part_def)
    with Cons.prems(2) have "\<forall>q \<in> set (acc @ [p]). clean_part q" by simp
    from IH [OF this] 2 show ?thesis by simp
  next
    case 3
    have nl: "acc \<noteq> [] \<Longrightarrow> last acc \<noteq> ''..''"
      using Cons.prems(2) last_in_set [of acc] by (auto simp: clean_part_def)
    have "\<forall>q \<in> set (butlast acc). clean_part q"
      using Cons.prems(2) by (auto dest: in_set_butlastD)
    from IH [OF this] IH [OF Cons.prems(2)] 3 Cons.prems(1) nl show ?thesis
      by (cases "acc = []") simp_all
  qed
qed

lemma startswith_slash: "startswith s ''/'' \<longleftrightarrow> s \<noteq> [] \<and> hd s = CHR ''/''"
  by (cases s) (simp_all add: startswith_def)

lemma initial_slashes_range: "startswith p ''/'' \<Longrightarrow> initial_slashes p = 1 \<or> initial_slashes p = 2"
  by (simp add: initial_slashes_def)

lemma initial_slashes_replicate:
  assumes "k = 1 \<or> k = 2" and "s = [] \<or> hd s \<noteq> CHR ''/''"
  shows "initial_slashes (replicate k CHR ''/'' @ s) = k"
proof -
  from assms(2) have t: "take n s \<noteq> CHR ''/'' # r" if "0 < n" for n r
    using that by (cases s; cases n) auto
  from assms(1) show ?thesis
  proof
    assume "k = 1"
    then show ?thesis using t [of 1 "[]"] assms(2)
      by (cases s) (auto simp: initial_slashes_def startswith_def)
  next
    assume "k = 2"
    then show ?thesis using assms(2)
      by (cases s) (auto simp: initial_slashes_def startswith_def numeral_2_eq_2)
  qed
qed

lemma clean_partD:
  assumes "clean_part p"
  shows "p \<noteq> []" and "CHR ''/'' \<notin> set p" and "hd p \<noteq> CHR ''/''" and "last p \<noteq> CHR ''/''"
proof -
  from assms show a: "p \<noteq> []" and b: "CHR ''/'' \<notin> set p" by (simp_all add: clean_part_def)
  from a have "hd p \<in> set p" and "last p \<in> set p" by simp_all
  with b show "hd p \<noteq> CHR ''/''" and "last p \<noteq> CHR ''/''" by metis+
qed

lemma join_clean_hd:
  assumes "\<forall>p \<in> set cs. clean_part p"
  shows "join_slash cs = [] \<or> hd (join_slash cs) \<noteq> CHR ''/''"
proof (cases cs)
  case Nil
  then show ?thesis by simp
next
  case (Cons c cs')
  with assms have c: "clean_part c" by simp
  from Cons have "hd (join_slash cs) = hd c"
    using hd_join_slash [of cs] clean_partD(1) [OF c] by simp
  with clean_partD(3) [OF c] show ?thesis by simp
qed

text \<open>A path made of one or two slashes and parts that are clean or empty, the first one
  clean: \<open>normpath\<close> keeps the slashes and the clean parts.\<close>

lemma normpath_canonical:
  assumes k: "k = 1 \<or> k = 2"
    and xs: "\<forall>p \<in> set xs. p = [] \<or> clean_part p"
    and first: "xs \<noteq> [] \<Longrightarrow> clean_part (hd xs)"
  shows "normpath (replicate k CHR ''/'' @ join_slash xs)
           = replicate k CHR ''/'' @ join_slash (filter (\<lambda>p. p \<noteq> []) xs)"
proof -
  let ?s = "replicate k CHR ''/'' @ join_slash xs"
  from k have s_ne: "?s \<noteq> []" by auto
  have hdj: "join_slash xs = [] \<or> hd (join_slash xs) \<noteq> CHR ''/''"
  proof (cases "xs = []")
    case True
    then show ?thesis by simp
  next
    case False
    from first [OF False] have c: "clean_part (hd xs)" .
    from False have "hd (join_slash xs) = hd (hd xs)"
      using hd_join_slash [OF False] clean_partD(1) [OF c] by simp
    with clean_partD(3) [OF c] show ?thesis by simp
  qed
  have isl: "initial_slashes ?s = k" by (rule initial_slashes_replicate [OF k hdj])
  have noslash: "\<forall>p \<in> set xs. CHR ''/'' \<notin> set p"
  proof
    fix p assume "p \<in> set xs"
    with xs have "p = [] \<or> clean_part p" by blast
    then show "CHR ''/'' \<notin> set p" using clean_partD(2) [of p] by auto
  qed
  have sp: "filter (\<lambda>p. p \<noteq> []) (split_slash (join_slash xs)) = filter (\<lambda>p. p \<noteq> []) xs"
  proof (cases "xs = []")
    case True
    then show ?thesis by simp
  next
    case False
    then show ?thesis using split_join_slash [OF False noslash] by simp
  qed
  have all: "\<forall>p \<in> set (replicate k [] @ split_slash (join_slash xs)). p = [] \<or> clean_part p"
  proof (cases "xs = []")
    case True
    then show ?thesis by simp
  next
    case False
    then show ?thesis using split_join_slash [OF False noslash] xs by auto
  qed
  have comps: "normpath_comps k (split_slash ?s) [] = filter (\<lambda>p. p \<noteq> []) xs"
    unfolding split_slash_slashes
    using normpath_comps_clean_input [OF all, of k "[]"] sp by simp
  from k have kz: "k \<noteq> 0" by auto
  show ?thesis
    unfolding normpath_def Let_def isl comps using s_ne kz k by auto
qed

text \<open>The normal form of an absolute path.\<close>

lemma normpath_absolute:
  assumes "startswith p ''/''"
  shows "\<exists>k cs. (k = 1 \<or> k = 2) \<and> k = initial_slashes p \<and> (\<forall>c \<in> set cs. clean_part c) \<and>
           normpath p = replicate k CHR ''/'' @ join_slash cs"
proof -
  let ?k = "initial_slashes p"
  let ?cs = "normpath_comps ?k (split_slash p) []"
  from assms have pn: "p \<noteq> []" by (simp add: startswith_slash)
  from initial_slashes_range [OF assms] have k: "?k = 1 \<or> ?k = 2" .
  then have kpos: "0 < ?k" by auto
  have cl: "\<forall>c \<in> set ?cs. clean_part c"
    by (rule normpath_comps_clean_output [OF kpos _ split_slash_no_slash]) simp
  from k have "replicate ?k CHR ''/'' @ join_slash ?cs \<noteq> []" by auto
  with pn kpos have "normpath p = replicate ?k CHR ''/'' @ join_slash ?cs"
    by (simp add: normpath_def Let_def)
  with k cl show ?thesis by blast
qed

lemma posix_join_absolute:
  "startswith cwd0 ''/'' \<Longrightarrow> startswith (posix_join cwd0 p) ''/''"
  by (cases cwd0) (auto simp: posix_join_def startswith_slash)

lemma lstrip_slashes:
  "s = [] \<or> hd s \<noteq> CHR ''/'' \<Longrightarrow> dropWhile (\<lambda>c. c = CHR ''/'') (replicate k CHR ''/'' @ s) = s"
  by (induction k) (cases s; auto)+

text \<open>The real path that \<open>resolve_path\<close> builds under a normalized absolute root.\<close>

lemma resolve_path_chroot:
  assumes root_abs: "startswith root ''/''" and root_norm: "normpath root = root"
    and cwd_abs: "startswith (cwd pm) ''/''" and ch: "chroot_root pm = Some root"
  shows "\<exists>cs. (\<forall>c \<in> set cs. clean_part c) \<and>
           resolve_path pm path0 =
             (if cs = [] then root
              else if last root = CHR ''/'' then root @ join_slash cs
              else root @ ''/'' @ join_slash cs)"
proof -
  define path where "path = (if path0 = [] then cwd pm else path0)"
  define virt where "virt = (if startswith path ''/'' then path else posix_join (cwd pm) path)"
  have virt_abs: "startswith virt ''/''"
    using posix_join_absolute [OF cwd_abs] by (simp add: virt_def)
  from normpath_absolute [OF virt_abs] obtain j cs where
    j: "j = 1 \<or> j = 2" and cs: "\<forall>c \<in> set cs. clean_part c"
    and nv: "normpath virt = replicate j CHR ''/'' @ join_slash cs" by blast
  from normpath_absolute [OF root_abs] root_norm obtain k rs where
    k: "k = 1 \<or> k = 2" and rs: "\<forall>c \<in> set rs. clean_part c"
    and root: "root = replicate k CHR ''/'' @ join_slash rs" by auto
  let ?q = "join_slash cs"
  have qhd: "?q = [] \<or> hd ?q \<noteq> CHR ''/''" by (rule join_clean_hd [OF cs])
  from j have nabs: "startswith (normpath virt) ''/''"
    unfolding nv by (auto simp: startswith_slash)
  have strip: "dropWhile (\<lambda>c. c = CHR ''/'') (normpath virt) = ?q"
    unfolding nv by (rule lstrip_slashes [OF qhd])
  have res0: "resolve_path pm path0 =
      normpath (posix_join root (dropWhile (\<lambda>c. c = CHR ''/'')
        (if \<not> startswith (normpath virt) ''/'' then ''/'' @ normpath virt else normpath virt)))"
    unfolding virt_def path_def resolve_path_def Let_def ch option.case ..
  have res: "resolve_path pm path0 = normpath (posix_join root ?q)"
    unfolding res0 using nabs strip by simp
  from qhd have qrel: "\<not> startswith ?q ''/''" by (auto simp: startswith_slash)
  from root_abs have root_ne: "root \<noteq> []" by (simp add: startswith_slash)
  have csf: "filter (\<lambda>p. p \<noteq> []) cs = cs" and rsf: "filter (\<lambda>p. p \<noteq> []) rs = rs"
    using cs rs clean_partD(1) by (auto simp: filter_id_conv)
  show ?thesis
  proof (cases "rs = []")
    case True
    then have r1: "root = replicate k CHR ''/''" using root by simp
    with k have lr: "last root = CHR ''/''" by auto
    with qrel root_ne have pj: "posix_join root ?q = replicate k CHR ''/'' @ ?q"
      by (simp add: posix_join_def r1)
    have "normpath (replicate k CHR ''/'' @ ?q) = replicate k CHR ''/'' @ ?q"
      using normpath_canonical [OF k, of cs] cs csf by (cases cs) auto
    with res pj r1 have "resolve_path pm path0 = root @ ?q" by simp
    with lr cs show ?thesis by (intro exI [of _ cs]) auto
  next
    case False
    have lastrs: "clean_part (last rs)" using rs False by simp
    have "last (join_slash rs) = last (last rs)"
      using last_join_slash [OF False] clean_partD(1) [OF lastrs] by simp
    moreover have jne: "join_slash rs \<noteq> []"
      using join_slash_Nil_last [OF False] clean_partD(1) [OF lastrs] by simp
    ultimately have lr: "last root \<noteq> CHR ''/''"
      using clean_partD(4) [OF lastrs] root by simp
    with qrel root_ne have pj: "posix_join root ?q = root @ CHR ''/'' # ?q"
      by (simp add: posix_join_def)
    define xs where "xs = (if cs = [] then [[]] else cs)"
    have xne: "xs \<noteq> []" by (simp add: xs_def)
    have jx: "join_slash xs = ?q" by (simp add: xs_def)
    have fx: "filter (\<lambda>p. p \<noteq> []) xs = cs" using csf by (simp add: xs_def)
    have real: "root @ CHR ''/'' # ?q = replicate k CHR ''/'' @ join_slash (rs @ xs)"
      using join_slash_append [OF False xne] root jx by simp
    have allx: "\<forall>p \<in> set (rs @ xs). p = [] \<or> clean_part p"
      using rs cs by (auto simp: xs_def)
    have firstx: "clean_part (hd (rs @ xs))" using False rs by (cases rs) auto
    have "normpath (replicate k CHR ''/'' @ join_slash (rs @ xs))
            = replicate k CHR ''/'' @ join_slash (filter (\<lambda>p. p \<noteq> []) (rs @ xs))"
      by (rule normpath_canonical [OF k allx firstx])
    also have "filter (\<lambda>p. p \<noteq> []) (rs @ xs) = rs @ cs" using rsf fx by simp
    finally have np: "normpath (root @ CHR ''/'' # ?q) = replicate k CHR ''/'' @ join_slash (rs @ cs)"
      using real by simp
    show ?thesis
    proof (cases "cs = []")
      case True
      with np root have "normpath (root @ CHR ''/'' # ?q) = root" by simp
      with res pj True cs show ?thesis by (intro exI [of _ cs]) simp
    next
      case cne: False
      from np root join_slash_append [OF False cne]
      have "normpath (root @ CHR ''/'' # ?q) = root @ CHR ''/'' # ?q" by simp
      with res pj lr cne cs show ?thesis by (intro exI [of _ cs]) simp
    qed
  qed
qed

lemma normalized_root_last:
  assumes "startswith root ''/''" and "normpath root = root" and "last root = CHR ''/''"
  shows "root = ''/'' \<or> root = ''//''"
proof -
  from normpath_absolute [OF assms(1)] assms(2) obtain k rs where
    k: "k = 1 \<or> k = 2" and rs: "\<forall>c \<in> set rs. clean_part c"
    and root: "root = replicate k CHR ''/'' @ join_slash rs" by auto
  have "rs = []"
  proof (rule ccontr)
    assume ne: "rs \<noteq> []"
    then have c: "clean_part (last rs)" using rs by simp
    have "last (join_slash rs) = last (last rs)"
      using last_join_slash [OF ne] clean_partD(1) [OF c] by simp
    moreover have "join_slash rs \<noteq> []"
      using join_slash_Nil_last [OF ne] clean_partD(1) [OF c] by simp
    ultimately have "last root = last (last rs)" using root by simp
    with clean_partD(4) [OF c] assms(3) show False by simp
  qed
  with root k show ?thesis by (auto simp: numeral_2_eq_2)
qed

text \<open>
  C10.  That the resolved path equals \<open>chroot_root\<close> or starts with \<open>chroot_root\<close>
  followed by a slash fails when \<open>chroot_root\<close> is \<open>/\<close> itself: \<open>etc\<close> resolves to
  \<open>/etc\<close>, which is neither \<open>/\<close> nor starts with \<open>//\<close>.
\<close>

theorem resolve_path_root_counterexample:
  "chroot_root root_pm = Some ''/'' \<and> startswith ''/'' ''/'' \<and> normpath ''/'' = ''/'' \<and>
   startswith (cwd root_pm) ''/'' \<and>
   resolve_path root_pm ''etc'' = ''/etc'' \<and>
   ''/etc'' \<noteq> ''/'' \<and> \<not> startswith ''/etc'' (''/'' @ ''/'')"
  by (simp add: root_pm_def PathManager_init_def resolve_path_def normpath_def
      initial_slashes_def startswith_def posix_join_def)

text \<open>
  C10, as the code has it.  When \<open>chroot_root\<close> is a normalized absolute path and
  \<open>cwd\<close> is absolute, \<open>resolve_path\<close> returns \<open>chroot_root\<close>, or a path that starts with
  \<open>chroot_root\<close> and a slash, or, when \<open>chroot_root\<close> is \<open>/\<close> or \<open>//\<close> and so ends in
  a slash already, a path that starts with \<open>chroot_root\<close>.  More precisely the result is
  \<open>chroot_root\<close> followed by components none of which is empty, \<open>.\<close> or \<open>..\<close>: no
  input path leaves the chroot.
\<close>

theorem resolve_path_stays_in_chroot:
  "chroot_root pm = Some root \<and> startswith root ''/'' \<and> normpath root = root \<and>
   startswith (cwd pm) ''/'' \<longrightarrow>
     (resolve_path pm path0 = root \<or> startswith (resolve_path pm path0) (root @ ''/'') \<or>
      ((root = ''/'' \<or> root = ''//'') \<and> startswith (resolve_path pm path0) root)) \<and>
     (\<exists>cs. (\<forall>c \<in> set cs. clean_part c) \<and>
        resolve_path pm path0 =
          (if cs = [] then root
           else if last root = CHR ''/'' then root @ join_slash cs
           else root @ ''/'' @ join_slash cs))"
proof (intro impI)
  assume a: "chroot_root pm = Some root \<and> startswith root ''/'' \<and> normpath root = root \<and>
   startswith (cwd pm) ''/''"
  then have ch: "chroot_root pm = Some root" and ra: "startswith root ''/''"
    and rn: "normpath root = root" and ca: "startswith (cwd pm) ''/''" by simp_all
  from resolve_path_chroot [OF ra rn ca ch, of path0] obtain cs where
    cs: "\<forall>c \<in> set cs. clean_part c"
    and r: "resolve_path pm path0 =
          (if cs = [] then root
           else if last root = CHR ''/'' then root @ join_slash cs
           else root @ ''/'' @ join_slash cs)" by blast
  have d: "resolve_path pm path0 = root \<or> startswith (resolve_path pm path0) (root @ ''/'') \<or>
      ((root = ''/'' \<or> root = ''//'') \<and> startswith (resolve_path pm path0) root)"
  proof (cases "cs = []")
    case True
    with r show ?thesis by simp
  next
    case False
    show ?thesis
    proof (cases "last root = CHR ''/''")
      case True
      from normalized_root_last [OF ra rn True] have "root = ''/'' \<or> root = ''//''" .
      moreover from r False True have "startswith (resolve_path pm path0) root"
        by (simp add: startswith_def)
      ultimately show ?thesis by blast
    next
      case nl: False
      with r False have "resolve_path pm path0 = (root @ ''/'') @ join_slash cs" by simp
      then have "startswith (resolve_path pm path0) (root @ ''/'')"
        unfolding startswith_def by (simp only: append_eq_conv_conj take_append length_append)
           simp
      then show ?thesis by blast
    qed
  qed
  from d cs r show "(resolve_path pm path0 = root \<or> startswith (resolve_path pm path0) (root @ ''/'') \<or>
      ((root = ''/'' \<or> root = ''//'') \<and> startswith (resolve_path pm path0) root)) \<and>
     (\<exists>cs. (\<forall>c \<in> set cs. clean_part c) \<and>
        resolve_path pm path0 =
          (if cs = [] then root
           else if last root = CHR ''/'' then root @ join_slash cs
           else root @ ''/'' @ join_slash cs))"
    by blast
qed

theorem resolve_path_stays_in_chroot_witness:
  "chroot_root chroot_pm = Some ''/var/chroot'' \<and> startswith ''/var/chroot'' ''/'' \<and>
   normpath ''/var/chroot'' = ''/var/chroot'' \<and> startswith (cwd chroot_pm) ''/'' \<and>
   resolve_path chroot_pm ''../../etc'' = ''/var/chroot/etc'' \<and>
   startswith (resolve_path chroot_pm ''../../etc'') (''/var/chroot'' @ ''/'')"
proof -
  have a: "chroot_root chroot_pm = Some ''/var/chroot''"
    by (simp add: chroot_pm_def PathManager_init_def)
  have b: "startswith ''/var/chroot'' ''/''" by (simp add: startswith_def)
  have c: "normpath ''/var/chroot'' = ''/var/chroot''"
    by (simp add: normpath_def initial_slashes_def startswith_def)
  have d: "startswith (cwd chroot_pm) ''/''"
    by (simp add: chroot_pm_def PathManager_init_def startswith_def)
  have e: "resolve_path chroot_pm ''../../etc'' = ''/var/chroot/etc''"
    by (simp add: chroot_pm_def PathManager_init_def resolve_path_def normpath_def
        initial_slashes_def startswith_def posix_join_def)
  have f: "startswith ''/var/chroot/etc'' (''/var/chroot'' @ ''/'')"
    by (simp add: startswith_def)
  from resolve_path_stays_in_chroot [of chroot_pm "''/var/chroot''" "''../../etc''"] a b c d e f
  show ?thesis by simp
qed


end
